theory Spec2Isabelle
  imports Complex_Main "HOL-Library.Sublist"
begin

text \<open>
  The clipboard reader, the text normalizer, the clipboard poll loop and the speech
  worker of \<^verbatim>\<open>src/powertoys_text_to_speech_edge.py\<close>, and the scan of the
  voice-listing script \<^verbatim>\<open>src/voice_test.py\<close>.
\<close>

section \<open>Python strings\<close>

text \<open>
  A Python \<open>str\<close> is a sequence of Unicode code points, and \<open>len\<close> counts code points.
  A code point is modelled by its number, a string by the list of its code points.
\<close>

type_synonym pychar = nat
type_synonym pystr = "pychar list"

text \<open>An ASCII literal of the source, written as an Isabelle string.\<close>

definition str :: "string \<Rightarrow> pystr" where
  "str cs = map of_char cs"

definition SPACE :: pychar where "SPACE = 32"
definition LF :: pychar where "LF = 10"
definition CR :: pychar where "CR = 13"

text \<open>
  \<open>str.strip()\<close> without argument and the class \<open>\s\<close> of a \<open>str\<close> pattern both test a
  character with CPython's \<open>Py_UNICODE_ISSPACE\<close>. Its table belongs to the interpreter:
  the code points of bidirectional type WS, B or S, or of category Zs.
\<close>

definition isspace :: "pychar \<Rightarrow> bool" where
  "isspace c \<longleftrightarrow>
     (9 \<le> c \<and> c \<le> 13) \<or> (28 \<le> c \<and> c \<le> 32) \<or> c = 133 \<or> c = 160 \<or> c = 5760 \<or>
     (8192 \<le> c \<and> c \<le> 8202) \<or> c = 8232 \<or> c = 8233 \<or> c = 8239 \<or> c = 8287 \<or> c = 12288"

text \<open>\<open>s.strip()\<close>: the leading and the trailing whitespace removed.\<close>

definition strip :: "pystr \<Rightarrow> pystr" where
  "strip s = rev (dropWhile isspace (rev (dropWhile isspace s)))"

text \<open>
  \<open>s.replace(old, new)\<close>: the occurrences of \<open>old\<close> are found from the left and do not
  overlap. For an empty \<open>old\<close>, Python puts \<open>new\<close> before every character and at the end.
\<close>

function replace :: "pystr \<Rightarrow> pystr \<Rightarrow> pystr \<Rightarrow> pystr" where
  "replace old new [] = (if old = [] then new else [])"
| "replace old new (c # cs) =
     (if old = [] then new @ c # replace old new cs
      else if prefix old (c # cs) then new @ replace old new (drop (length old) (c # cs))
      else c # replace old new cs)"
  by pat_completeness auto
termination
  by (relation "measure (\<lambda>(old, new, s). length s)") auto

text \<open>
  \<open>re.sub(r"\s{2,}", " ", s)\<close>: the scan goes from the left; at a position where two or
  more whitespace characters start, the greedy quantifier takes the whole run and the
  run becomes one space; any other character is kept and the scan moves on by one.
\<close>

function re_sub_ws :: "pystr \<Rightarrow> pystr" where
  "re_sub_ws [] = []"
| "re_sub_ws (c # cs) =
     (if 2 \<le> length (takeWhile isspace (c # cs))
      then SPACE # re_sub_ws (dropWhile isspace (c # cs))
      else c # re_sub_ws cs)"
  by pat_completeness auto
termination
proof (relation "measure length")
  fix c :: pychar and cs :: pystr
  assume "2 \<le> length (takeWhile isspace (c # cs))"
  then have "isspace c" by (cases "isspace c") auto
  then have "dropWhile isspace (c # cs) = dropWhile isspace cs" by simp
  then show "(dropWhile isspace (c # cs), c # cs) \<in> measure length"
    by (simp add: length_dropWhile_le le_imp_less_Suc)
qed auto

declare re_sub_ws.simps(2) [simp del]

text \<open>\<open>sub in s\<close> for two strings: \<open>sub\<close> occurs in \<open>s\<close> as a contiguous piece.\<close>

fun contains :: "pystr \<Rightarrow> pystr \<Rightarrow> bool" where
  "contains sub [] = (sub = [])"
| "contains sub (c # cs) = (prefix sub (c # cs) \<or> contains sub cs)"

text \<open>
  \<open>s.lower()\<close> follows the Unicode case tables of the interpreter, which are not part
  of the repository: the functions below take it as the parameter \<open>lower\<close>. On a string
  of ASCII characters it is the function \<open>ascii_lower\<close>.
\<close>

definition ascii_lower :: "pystr \<Rightarrow> pystr" where
  "ascii_lower s = map (\<lambda>c. if 65 \<le> c \<and> c \<le> 90 then c + 32 else c) s"

subsection \<open>The text normalizer\<close>

definition tidy_text :: "pystr \<Rightarrow> pystr" where
  "tidy_text s =
     (if s = [] then []
      else
        let s1 = strip s;
            s2 = replace [CR] [SPACE] (replace [LF] [SPACE] (replace [CR, LF] [SPACE] s1));
            s3 = re_sub_ws s2
        in strip s3)"

text \<open>A string without two whitespace characters in a row.\<close>

definition ws_run_free :: "pystr \<Rightarrow> bool" where
  "ws_run_free t \<longleftrightarrow> (\<forall>a b. sublist [a, b] t \<longrightarrow> \<not> (isspace a \<and> isspace b))"

text \<open>
  The normalizer in the words of the specification, read one whitespace run at a
  time. Leading and trailing whitespace is removed: \<open>spec_normalize\<close> drops the leading
  run and \<open>spec_runs\<close> drops a run that ends the string. Every other character that
  is not whitespace is kept. A whitespace run between two such characters becomes
  what \<open>spec_separator\<close> says: a run of two or more characters becomes one space
  (this includes \<open>\r\n\<close>), a single \<open>\r\<close> or \<open>\n\<close> becomes a space, and a single
  whitespace character of another kind stays.
\<close>

definition spec_separator :: "pystr \<Rightarrow> pystr" where
  "spec_separator ws =
     (if 2 \<le> length ws then [SPACE]
      else if ws = [CR] \<or> ws = [LF] then [SPACE]
      else ws)"

function spec_runs :: "pystr \<Rightarrow> pystr" where
  "spec_runs [] = []"
| "spec_runs (c # cs) =
     (if isspace c then
        (if dropWhile isspace cs = [] then []
         else spec_separator (c # takeWhile isspace cs) @ spec_runs (dropWhile isspace cs))
      else c # spec_runs cs)"
  by pat_completeness auto
termination
  by (relation "measure length") (auto simp: length_dropWhile_le le_imp_less_Suc)

declare spec_runs.simps(2) [simp del]

definition spec_normalize :: "pystr \<Rightarrow> pystr" where
  "spec_normalize s = spec_runs (dropWhile isspace s)"

text \<open>
  Two functions for the proofs: the three replacements of \<open>tidy_text\<close> as one pass from
  the left, and \<open>s.rstrip()\<close>.
\<close>

fun newlines_to_spaces :: "pystr \<Rightarrow> pystr" where
  "newlines_to_spaces (a # b # cs) =
     (if a = CR \<and> b = LF then SPACE # newlines_to_spaces cs
      else (if a = CR \<or> a = LF then SPACE else a) # newlines_to_spaces (b # cs))"
| "newlines_to_spaces [a] = [if a = CR \<or> a = LF then SPACE else a]"
| "newlines_to_spaces [] = []"

definition rstrip :: "pystr \<Rightarrow> pystr" where
  "rstrip s = rev (dropWhile isspace (rev s))"

section \<open>Exceptions\<close>

text \<open>
  The platform calls (\<open>win32clipboard\<close>, \<open>pythoncom\<close>, the SAPI COM object) fail by
  raising \<open>pywintypes.error\<close> or \<open>com_error\<close>, both subclasses of \<open>Exception\<close>. A call
  that returns a value has an outcome of type \<open>exn + 'a\<close>, with \<open>Inl\<close> the exception
  raised; a call that returns nothing has an outcome of type \<open>exn option\<close>, with \<open>None\<close>
  the normal return.
\<close>

datatype exn = Exception string

definition call :: "exn option \<Rightarrow> exn + unit" where
  "call outcome = (case outcome of Some e \<Rightarrow> Inl e | None \<Rightarrow> Inr ())"

text \<open>\<open>try: body except Exception: handler\<close>\<close>

definition try_except :: "exn + 'a \<Rightarrow> (exn \<Rightarrow> exn + 'a) \<Rightarrow> exn + 'a" where
  "try_except body handler = (case body of Inl e \<Rightarrow> handler e | Inr x \<Rightarrow> Inr x)"

text \<open>
  \<open>try: body finally: cleanup\<close>: the cleanup runs in both cases, and an exception of
  the cleanup replaces the outcome of the body.
\<close>

definition try_finally :: "exn + 'a \<Rightarrow> exn + unit \<Rightarrow> exn + 'a" where
  "try_finally body cleanup = (case cleanup of Inl e \<Rightarrow> Inl e | Inr _ \<Rightarrow> body)"

section \<open>The clipboard reader\<close>

text \<open>
  What \<open>GetClipboardData(CF_UNICODETEXT)\<close> returns: a \<open>str\<close>, or an object of another
  type.
\<close>

datatype clipdata = Str pystr | NotStr

text \<open>What the Win32 clipboard calls do during one call of \<open>get_clipboard_text\<close>.\<close>

record clipboard =
  OpenClipboard :: "exn option"
  IsClipboardFormatAvailable :: "exn + bool"
  GetClipboardData :: "exn + clipdata"
  CloseClipboard :: "exn option"

definition get_clipboard_text :: "clipboard \<Rightarrow> exn + pystr option" where
  "get_clipboard_text w =
     (let text = None;
          body =
            (case call (OpenClipboard w) of Inl e \<Rightarrow> Inl e
             | Inr _ \<Rightarrow>
                (case IsClipboardFormatAvailable w of Inl e \<Rightarrow> Inl e
                 | Inr False \<Rightarrow> Inr text
                 | Inr True \<Rightarrow>
                    (case GetClipboardData w of Inl e \<Rightarrow> Inl e
                     | Inr (Str data) \<Rightarrow> Inr (Some data)
                     | Inr NotStr \<Rightarrow> Inr text)))
      in try_finally
           (try_except body (\<lambda>e. Inr None))
           (try_except (call (CloseClipboard w)) (\<lambda>e. Inr ())))"

section \<open>The clipboard watcher\<close>

text \<open>
  The loop of \<open>wait_for_clip_change\<close> reads the clock and the clipboard once per round.
  \<open>time_time k\<close> is the value of the \<open>k\<close>-th call of \<open>time.time()\<close> (call 0 gives
  \<open>start\<close>, call \<open>k + 1\<close> is the test of round \<open>k\<close>), a float taken as a real number;
  \<open>clip k\<close> is what the clipboard calls do in round \<open>k\<close>. \<open>time.sleep\<close> shows only in
  the clock values. The loop need not end (a clock that stands still), so the result is
  an option: \<open>None\<close> is a loop that runs forever, \<open>Some (Inr r)\<close> is the return of
  \<open>r\<close>, where \<open>r = None\<close> is Python's \<open>None\<close>.
\<close>

partial_function (option) poll_loop ::
  "(nat \<Rightarrow> real) \<Rightarrow> (nat \<Rightarrow> clipboard) \<Rightarrow> pystr \<Rightarrow> real \<Rightarrow> real \<Rightarrow> nat \<Rightarrow>
   (exn + pystr option) option" where
  "poll_loop time_time clip baseline timeout_s start k =
     (if time_time (Suc k) - start < timeout_s then
        (case get_clipboard_text (clip k) of
           Inl e \<Rightarrow> Some (Inl e)
         | Inr None \<Rightarrow> poll_loop time_time clip baseline timeout_s start (Suc k)
         | Inr (Some current) \<Rightarrow>
             if current \<noteq> [] \<and> current \<noteq> baseline then Some (Inr (Some current))
             else poll_loop time_time clip baseline timeout_s start (Suc k))
      else Some (Inr None))"

definition wait_for_clip_change ::
  "(nat \<Rightarrow> real) \<Rightarrow> (nat \<Rightarrow> clipboard) \<Rightarrow> pystr \<Rightarrow> real \<Rightarrow> (exn + pystr option) option" where
  "wait_for_clip_change time_time clip baseline timeout_s =
     (let start = time_time 0 in poll_loop time_time clip baseline timeout_s start 0)"

text \<open>
  Round \<open>k\<close> shows a change: the read gives a non-empty text other than the baseline.
\<close>

definition changed :: "pystr \<Rightarrow> clipboard \<Rightarrow> bool" where
  "changed baseline w =
     (case get_clipboard_text w of
        Inr (Some current) \<Rightarrow> current \<noteq> [] \<and> current \<noteq> baseline
      | _ \<Rightarrow> False)"

text \<open>A read fails: one of the calls in the \<open>try\<close> body raises.\<close>

definition read_fails :: "clipboard \<Rightarrow> bool" where
  "read_fails w \<longleftrightarrow>
     isl (call (OpenClipboard w)) \<or>
     isl (IsClipboardFormatAvailable w) \<or>
     (IsClipboardFormatAvailable w = Inr True \<and> isl (GetClipboardData w))"

section \<open>The speech engine\<close>

definition MIN_CHARS_TO_SPEAK :: nat where "MIN_CHARS_TO_SPEAK = 3"
definition NATURAL_MATCH_SUBSTR :: pystr where "NATURAL_MATCH_SUBSTR = str ''natural''"
definition SAPI_RATE :: int where "SAPI_RATE = 0"
definition SAPI_VOLUME :: int where "SAPI_VOLUME = 100"

text \<open>A SAPI voice token with the string its \<open>GetDescription()\<close> returns.\<close>

record token =
  token_id :: nat
  description :: pystr

text \<open>The \<open>SAPI.SpVoice\<close> object: the active voice and the two settings.\<close>

record engine =
  Voice :: token
  Rate :: int
  Volume :: int

text \<open>
  What the COM calls of one start do. \<open>Dispatch\<close> gives the engine with its defaults.
  \<open>GetVoices\<close> is \<open>voice.GetVoices()\<close> with \<open>tokens.Count\<close>; its list has one entry per
  index \<open>i\<close>, the outcome of \<open>tokens.Item(i)\<close> followed by \<open>token.GetDescription()\<close>.
  \<open>set_Voice\<close>, \<open>set_Rate\<close> and \<open>set_Volume\<close> are the three property assignments, and
  \<open>get_Voice_GetDescription\<close> is the read \<open>voice.Voice.GetDescription()\<close> in the
  message printed after a selection.
\<close>

record sapi =
  CoInitialize :: "exn option"
  Dispatch :: "exn + engine"
  GetVoices :: "exn + (exn + token) list"
  set_Voice :: "token \<Rightarrow> exn option"
  get_Voice_GetDescription :: "exn option"
  set_Rate :: "int \<Rightarrow> exn option"
  set_Volume :: "int \<Rightarrow> exn option"
  CoUninitialize :: "exn option"

section \<open>The speech worker\<close>

text \<open>
  The fields of a \<open>SapiNaturalSpeaker\<close>: the queue \<open>_q\<close>, oldest entry first, and
  \<open>_match\<close>. The worker adds the local variable \<open>voice\<close> of \<open>_run\<close>.
\<close>

record speaker =
  q :: "pystr list"
  match :: pystr

record worker = speaker +
  voice :: engine

text \<open>\<open>__init__\<close>, where \<open>natural_match_substr or ""\<close> turns \<open>None\<close> into the empty string.\<close>

definition SapiNaturalSpeaker :: "(pystr \<Rightarrow> pystr) \<Rightarrow> pystr option \<Rightarrow> speaker" where
  "SapiNaturalSpeaker lower natural_match_substr =
     \<lparr>q = [],
      match = lower (case natural_match_substr of None \<Rightarrow> [] | Some m \<Rightarrow> if m = [] then [] else m)\<rparr>"

definition speak :: "'a speaker_scheme \<Rightarrow> pystr \<Rightarrow> 'a speaker_scheme" where
  "speak self text =
     (if text \<noteq> [] \<and> MIN_CHARS_TO_SPEAK \<le> length text then self\<lparr>q := q self @ [text]\<rparr>
      else self)"

text \<open>
  The scan of \<open>_run\<close> over the tokens: the first token whose lower-cased description
  contains the non-empty \<open>_match\<close> is selected and the scan stops there.
\<close>

fun scan :: "(pystr \<Rightarrow> pystr) \<Rightarrow> pystr \<Rightarrow> (exn + token) list \<Rightarrow> exn + token option" where
  "scan lower m [] = Inr None"
| "scan lower m (item # items) =
     (case item of
        Inl e \<Rightarrow> Inl e
      | Inr tok \<Rightarrow>
          if m \<noteq> [] \<and> contains m (lower (description tok)) then Inr (Some tok)
          else scan lower m items)"

text \<open>
  The optional tuning: \<open>try: voice.Rate = SAPI_RATE; voice.Volume = SAPI_VOLUME
  except Exception: pass\<close>. An assignment that raises leaves the setting as it was.
\<close>

definition tune :: "sapi \<Rightarrow> engine \<Rightarrow> exn + engine" where
  "tune io v =
     (case call (set_Rate io SAPI_RATE) of
        Inl e \<Rightarrow> try_except (Inl e) (\<lambda>e. Inr v)
      | Inr _ \<Rightarrow>
          (case call (set_Volume io SAPI_VOLUME) of
             Inl e \<Rightarrow> try_except (Inl e) (\<lambda>e. Inr (v\<lparr>Rate := SAPI_RATE\<rparr>))
           | Inr _ \<Rightarrow> Inr (v\<lparr>Rate := SAPI_RATE, Volume := SAPI_VOLUME\<rparr>)))"

text \<open>
  \<open>_run\<close> up to the worker loop. \<open>Inr w\<close> is the worker entering its loop; \<open>Inl e\<close> is
  the exception \<open>e\<close> leaving \<open>_run\<close>, which ends the worker thread. \<open>CoInitialize\<close> is
  called before the \<open>try\<close>; \<open>finally\<close> calls \<open>CoUninitialize\<close> when an exception leaves
  the \<open>try\<close> (the loop itself has no exit).
\<close>

definition startup :: "(pystr \<Rightarrow> pystr) \<Rightarrow> sapi \<Rightarrow> speaker \<Rightarrow> exn + worker" where
  "startup lower io self =
     (case call (CoInitialize io) of
        Inl e \<Rightarrow> Inl e
      | Inr _ \<Rightarrow>
          (let body =
             (case Dispatch io of
                Inl e \<Rightarrow> Inl e
              | Inr v \<Rightarrow>
                 (case GetVoices io of
                    Inl e \<Rightarrow> Inl e
                  | Inr tokens \<Rightarrow>
                     (case scan lower (match self) tokens of
                        Inl e \<Rightarrow> Inl e
                      | Inr selected \<Rightarrow>
                         (case (case selected of
                                  Some tok \<Rightarrow>
                                    (case call (set_Voice io tok) of
                                       Inl e \<Rightarrow> Inl e
                                     | Inr _ \<Rightarrow>
                                        (case call (get_Voice_GetDescription io) of
                                           Inl e \<Rightarrow> Inl e
                                         | Inr _ \<Rightarrow> Inr (v\<lparr>Voice := tok\<rparr>)))
                                | None \<Rightarrow> Inr v) of
                            Inl e \<Rightarrow> Inl e
                          | Inr v1 \<Rightarrow>
                             (case tune io v1 of
                                Inl e \<Rightarrow> Inl e
                              | Inr v2 \<Rightarrow> Inr \<lparr>q = q self, match = match self, voice = v2\<rparr>)))))
           in case body of
                Inl e \<Rightarrow> try_finally (Inl e) (call (CoUninitialize io))
              | Inr w \<Rightarrow> Inr w))"

text \<open>
  One of the calls of the start before the tuning raises: \<open>CoInitialize\<close>, the
  creation of the engine, the enumeration of the voices, or, for a selected token, the
  assignment of the voice or the read of its description.
\<close>

definition startup_call_raises :: "(pystr \<Rightarrow> pystr) \<Rightarrow> sapi \<Rightarrow> speaker \<Rightarrow> bool" where
  "startup_call_raises lower io self \<longleftrightarrow>
     isl (call (CoInitialize io)) \<or> isl (Dispatch io) \<or>
     (case GetVoices io of
        Inl e \<Rightarrow> True
      | Inr items \<Rightarrow>
         (case scan lower (match self) items of
            Inl e \<Rightarrow> True
          | Inr None \<Rightarrow> False
          | Inr (Some tok) \<Rightarrow>
              isl (call (set_Voice io tok)) \<or> isl (call (get_Voice_GetDescription io))))"

text \<open>
  One round of the worker loop. \<open>outcome\<close> is what \<open>voice.Speak\<close> does if it is called
  in this round. The result pairs the texts passed to \<open>voice.Speak\<close> in the round
  with the worker after it, \<open>Inl e\<close> being an exception that leaves the loop. On an
  empty queue \<open>get\<close> raises \<open>Empty\<close> after its timeout and the loop continues.
\<close>

definition iteration :: "exn option \<Rightarrow> worker \<Rightarrow> pystr list \<times> (exn + worker)" where
  "iteration outcome w =
     (case q w of
        [] \<Rightarrow> ([], Inr w)
      | txt # rest \<Rightarrow>
          ([txt],
           case try_except (call outcome) (\<lambda>e. Inr ()) of
             Inl e \<Rightarrow> Inl e
           | Inr _ \<Rightarrow> Inr (w\<lparr>q := rest\<rparr>)))"

text \<open>
  The two threads share only the queue, whose \<open>put\<close> and \<open>get\<close> are atomic, so a run of
  the program is a sequence of events: the hotkey thread submits a text, or the worker
  does one round of its loop. A slow \<open>Speak\<close> is a round with many submissions before
  the next round. \<open>run\<close> gives the texts passed to \<open>voice.Speak\<close> so far, in order, and
  the worker; it stops when an exception leaves the loop.
\<close>

datatype event = Submit pystr | Round "exn option"

fun run :: "event list \<Rightarrow> worker \<Rightarrow> pystr list \<Rightarrow> pystr list \<times> (exn + worker)" where
  "run [] w spoken = (spoken, Inr w)"
| "run (Submit text # es) w spoken = run es (speak w text) spoken"
| "run (Round outcome # es) w spoken =
     (case iteration outcome w of
        (calls, Inl e) \<Rightarrow> (spoken @ calls, Inl e)
      | (calls, Inr w') \<Rightarrow> run es w' (spoken @ calls))"

text \<open>The texts of the submissions among the events, in order.\<close>

fun submitted :: "event list \<Rightarrow> pystr list" where
  "submitted [] = []"
| "submitted (Submit text # es) = text # submitted es"
| "submitted (Round outcome # es) = submitted es"

section \<open>The voice-listing script\<close>

text \<open>
  The scan of \<open>voice_test.py\<close> tests every token against the fixed string and has no
  \<open>break\<close>: a later match replaces \<open>chosen\<close>.
\<close>

fun voice_test_scan ::
  "(pystr \<Rightarrow> pystr) \<Rightarrow> (exn + token) list \<Rightarrow> token option \<Rightarrow> exn + token option" where
  "voice_test_scan lower [] chosen = Inr chosen"
| "voice_test_scan lower (item # items) chosen =
     (case item of
        Inl e \<Rightarrow> Inl e
      | Inr tok \<Rightarrow>
          if contains (str ''natural'') (lower (description tok))
          then voice_test_scan lower items (Some tok)
          else voice_test_scan lower items chosen)"

definition test_phrase :: pystr where
  "test_phrase = str ''Hello, this is a test of the selected voice.''"

text \<open>
  The script. \<open>speak_outcome\<close> is what the final \<open>speaker.Speak\<close> does. The result is
  the voice that is active when the phrase is spoken, with the phrase; \<open>Inl e\<close> is an
  exception that ends the script.
\<close>

definition voice_test :: "(pystr \<Rightarrow> pystr) \<Rightarrow> sapi \<Rightarrow> exn option \<Rightarrow> exn + token \<times> pystr" where
  "voice_test lower io speak_outcome =
     (case Dispatch io of
        Inl e \<Rightarrow> Inl e
      | Inr speaker0 \<Rightarrow>
         (case GetVoices io of
            Inl e \<Rightarrow> Inl e
          | Inr tokens \<Rightarrow>
             (case voice_test_scan lower tokens None of
                Inl e \<Rightarrow> Inl e
              | Inr chosen \<Rightarrow>
                 (case (case chosen of
                          Some tok \<Rightarrow>
                            (case call (set_Voice io tok) of
                               Inl e \<Rightarrow> Inl e
                             | Inr _ \<Rightarrow>
                                (case call (get_Voice_GetDescription io) of
                                   Inl e \<Rightarrow> Inl e
                                 | Inr _ \<Rightarrow> Inr (speaker0\<lparr>Voice := tok\<rparr>)))
                        | None \<Rightarrow> Inr speaker0) of
                    Inl e \<Rightarrow> Inl e
                  | Inr speaker1 \<Rightarrow>
                     (case call speak_outcome of
                        Inl e \<Rightarrow> Inl e
                      | Inr _ \<Rightarrow> Inr (Voice speaker1, test_phrase))))))"

text \<open>
  The words of the specification: a description contains the match string
  case-insensitively when the lower-cased match string occurs in the lower-cased
  description.
\<close>

definition contains_ci :: "(pystr \<Rightarrow> pystr) \<Rightarrow> pystr \<Rightarrow> pystr \<Rightarrow> bool" where
  "contains_ci lower sub s = contains (lower sub) (lower s)"

section \<open>An example engine\<close>

text \<open>
  The voices of the specification's example, and an engine that enumerates a given
  list of tokens, whose calls all succeed and whose default voice is the last of the
  three.
\<close>

definition David :: token where
  "David = \<lparr>token_id = 0, description = str ''Microsoft David''\<rparr>"

definition Natural_II :: token where
  "Natural_II = \<lparr>token_id = 1, description = str ''Microsoft Natural-II''\<rparr>"

definition Zira :: token where
  "Zira = \<lparr>token_id = 2, description = str ''Microsoft Zira''\<rparr>"

definition Natural_III :: token where
  "Natural_III = \<lparr>token_id = 3, description = str ''Microsoft NATURAL-III''\<rparr>"

definition default_engine :: engine where
  "default_engine = \<lparr>Voice = Zira, Rate = 2, Volume = 80\<rparr>"

definition working_sapi :: "token list \<Rightarrow> sapi" where
  "working_sapi tokens =
     \<lparr>CoInitialize = None, Dispatch = Inr default_engine, GetVoices = Inr (map Inr tokens),
      set_Voice = (\<lambda>tok. None), get_Voice_GetDescription = None,
      set_Rate = (\<lambda>r. None), set_Volume = (\<lambda>v. None), CoUninitialize = None\<rparr>"

section \<open>An example clipboard\<close>

text \<open>
  A clipboard that holds a text, a clipboard that another process has locked, a clock
  that advances by the poll interval of a tenth of a second per round, and a clipboard
  that is locked in round 0, holds \<open>old\<close> in round 1 and \<open>new\<close> from round 2 on.
\<close>

definition clipboard_with :: "pystr \<Rightarrow> clipboard" where
  "clipboard_with s =
     \<lparr>OpenClipboard = None, IsClipboardFormatAvailable = Inr True,
      GetClipboardData = Inr (Str s), CloseClipboard = None\<rparr>"

definition locked_clipboard :: clipboard where
  "locked_clipboard =
     \<lparr>OpenClipboard = Some (Exception ''OpenClipboard''), IsClipboardFormatAvailable = Inr True,
      GetClipboardData = Inr (Str (str ''new'')),
      CloseClipboard = Some (Exception ''CloseClipboard'')\<rparr>"

definition example_clock :: "nat \<Rightarrow> real" where
  "example_clock k = real k / 10"

definition example_clip :: "nat \<Rightarrow> clipboard" where
  "example_clip k =
     (if k = 0 then locked_clipboard
      else if k = 1 then clipboard_with (str ''old'')
      else clipboard_with (str ''new''))"

section \<open>Properties of the text normalizer\<close>

lemma ws_run_free_Nil: "ws_run_free []"
  by (simp add: ws_run_free_def)

lemma ws_run_free_single: "ws_run_free [c]"
  by (simp add: ws_run_free_def sublist_Cons_right)

lemma ws_run_free_Cons2:
  "ws_run_free (x # y # t) \<longleftrightarrow> \<not> (isspace x \<and> isspace y) \<and> ws_run_free (y # t)"
  by (auto simp: ws_run_free_def sublist_Cons_right[of _ x])

lemma ws_run_free_sublist: "ws_run_free t \<Longrightarrow> sublist u t \<Longrightarrow> ws_run_free u"
  unfolding ws_run_free_def by (meson sublist_order.order.trans)

lemma ws_run_free_tl: "ws_run_free (c # t) \<Longrightarrow> ws_run_free t"
  by (erule ws_run_free_sublist) (simp add: sublist_Cons_right)

lemma ws_run_free_rev: "ws_run_free (rev t) = ws_run_free t"
  unfolding ws_run_free_def
proof -
  have "sublist [a, b] (rev t) = sublist [b, a] t" for a b
    using sublist_rev_right[of "[a, b]" t] by simp
  then show "(\<forall>a b. sublist [a, b] (rev t) \<longrightarrow> \<not> (isspace a \<and> isspace b)) =
             (\<forall>a b. sublist [a, b] t \<longrightarrow> \<not> (isspace a \<and> isspace b))"
    by auto
qed

lemma re_sub_ws_keep: "\<not> isspace x \<Longrightarrow> re_sub_ws (x # xs) = x # re_sub_ws xs"
  by (simp add: re_sub_ws.simps(2))

lemma dropWhile_shape: "dropWhile P xs = [] \<or> (\<exists>y ys. dropWhile P xs = y # ys \<and> \<not> P y)"
  by (metis hd_dropWhile list.exhaust list.sel(1))

lemma re_sub_ws_run:
  "2 \<le> length (takeWhile isspace (c # cs)) \<Longrightarrow>
   re_sub_ws (c # cs) = SPACE # re_sub_ws (dropWhile isspace (c # cs))"
  by (simp add: re_sub_ws.simps(2) del: dropWhile.simps takeWhile.simps)

lemma re_sub_ws_norun:
  "\<not> 2 \<le> length (takeWhile isspace (c # cs)) \<Longrightarrow> re_sub_ws (c # cs) = c # re_sub_ws cs"
  by (simp add: re_sub_ws.simps(2) del: dropWhile.simps takeWhile.simps)

lemma ws_run_free_re_sub_ws: "ws_run_free (re_sub_ws s)"
proof (induction s rule: re_sub_ws.induct)
  case 1
  show ?case by (simp add: ws_run_free_Nil)
next
  case (2 c cs)
  show ?case
  proof (cases "2 \<le> length (takeWhile isspace (c # cs))")
    case True
    note r = re_sub_ws_run[OF True]
    from dropWhile_shape[of isspace "c # cs"] show ?thesis
    proof
      assume "dropWhile isspace (c # cs) = []"
      then show ?thesis unfolding r by (simp add: ws_run_free_single)
    next
      assume "\<exists>y ys. dropWhile isspace (c # cs) = y # ys \<and> \<not> isspace y"
      then obtain y ys where d: "dropWhile isspace (c # cs) = y # ys" and y: "\<not> isspace y"
        by blast
      from "2.IH"(1)[OF True] have "ws_run_free (re_sub_ws (y # ys))" unfolding d .
      then have "ws_run_free (y # re_sub_ws ys)" using y by (simp add: re_sub_ws_keep)
      then show ?thesis unfolding r d using y
        by (simp add: re_sub_ws_keep ws_run_free_Cons2)
    qed
  next
    case False
    from "2.IH"(2)[OF False] have ih: "ws_run_free (re_sub_ws cs)" .
    note r = re_sub_ws_norun[OF False]
    show ?thesis
    proof (cases cs)
      case Nil
      then show ?thesis unfolding r by (simp add: ws_run_free_single)
    next
      case (Cons y ys)
      show ?thesis
      proof (cases "isspace c")
        case c: True
        with False Cons have y: "\<not> isspace y" by (auto split: if_splits)
        with ih Cons have "ws_run_free (y # re_sub_ws ys)" by (simp add: re_sub_ws_keep)
        moreover have "re_sub_ws (c # cs) = c # y # re_sub_ws ys"
          using r Cons y by (simp add: re_sub_ws_keep)
        ultimately show ?thesis using y by (simp add: ws_run_free_Cons2)
      next
        case c: False
        show ?thesis
        proof (cases "re_sub_ws cs")
          case Nil
          then show ?thesis unfolding r by (simp add: ws_run_free_single)
        next
          case (Cons z zs)
          with ih c show ?thesis unfolding r by (simp add: ws_run_free_Cons2)
        qed
      qed
    qed
  qed
qed

lemma ws_run_free_strip: "ws_run_free t \<Longrightarrow> ws_run_free (strip t)"
  unfolding strip_def ws_run_free_rev
  by (meson ws_run_free_sublist ws_run_free_rev suffix_dropWhile suffix_imp_sublist)

lemma takeWhile_dropWhile_Nil: "takeWhile P (dropWhile P xs) = []"
  by (induction xs) auto

lemma takeWhile_rev_dropWhile_rev:
  "takeWhile P xs = [] \<Longrightarrow> takeWhile P (rev (dropWhile P (rev xs))) = []"
  by (cases xs) (auto simp: dropWhile_append split: if_splits)

lemma takeWhile_strip: "takeWhile isspace (strip s) = []"
  unfolding strip_def by (rule takeWhile_rev_dropWhile_rev) (rule takeWhile_dropWhile_Nil)

lemma takeWhile_rev_strip: "takeWhile isspace (rev (strip s)) = []"
  unfolding strip_def rev_rev_ident by (rule takeWhile_dropWhile_Nil)

lemma dropWhile_id: "takeWhile P xs = [] \<Longrightarrow> dropWhile P xs = xs"
  by (metis append_Nil takeWhile_dropWhile_id)

lemma strip_id:
  "takeWhile isspace t = [] \<Longrightarrow> takeWhile isspace (rev t) = [] \<Longrightarrow> strip t = t"
  by (simp add: strip_def dropWhile_id)

lemma set_strip: "set (strip s) \<subseteq> set s"
  by (auto simp: strip_def dest!: set_dropWhileD)

lemma set_re_sub_ws: "set (re_sub_ws s) \<subseteq> insert SPACE (set s)"
proof (induction s rule: re_sub_ws.induct)
  case 1
  show ?case by simp
next
  case (2 c cs)
  show ?case
  proof (cases "2 \<le> length (takeWhile isspace (c # cs))")
    case True
    have "set (dropWhile isspace (c # cs)) \<subseteq> set (c # cs)"
      using set_dropWhileD by fastforce
    with "2.IH"(1)[OF True] show ?thesis unfolding re_sub_ws_run[OF True] by auto
  next
    case False
    with "2.IH"(2)[OF False] show ?thesis unfolding re_sub_ws_norun[OF False] by auto
  qed
qed

lemma set_replace: "set (replace old new s) \<subseteq> set new \<union> set s"
proof (induction old new s rule: replace.induct)
  case (1 old new)
  show ?case by auto
next
  case (2 old new c cs)
  have "set (drop (length old) (c # cs)) \<subseteq> set (c # cs)" by (rule set_drop_subset)
  with 2 show ?case by (auto simp del: drop_Suc_Cons)
qed

lemma replace_char_absent: "c \<notin> set new \<Longrightarrow> c \<notin> set (replace [c] new s)"
  by (induction s) auto

lemma replace_id: "old \<noteq> [] \<Longrightarrow> hd old \<notin> set s \<Longrightarrow> replace old new s = s"
proof (induction s)
  case Nil
  then show ?case by simp
next
  case (Cons c cs)
  from Cons.prems have "\<not> prefix old (c # cs)"
    by (cases old) auto
  with Cons show ?case by simp
qed

lemma re_sub_ws_id: "ws_run_free t \<Longrightarrow> re_sub_ws t = t"
proof (induction t)
  case Nil
  show ?case by simp
next
  case (Cons c cs)
  have short: "\<not> 2 \<le> length (takeWhile isspace (c # cs))"
  proof (cases cs)
    case Nil
    then show ?thesis by simp
  next
    case (Cons y ys)
    with Cons.prems have "\<not> (isspace c \<and> isspace y)" by (simp add: ws_run_free_Cons2)
    with Cons show ?thesis by auto
  qed
  from Cons.prems have "ws_run_free cs" by (rule ws_run_free_tl)
  with Cons.IH show ?case unfolding re_sub_ws_norun[OF short] by simp
qed

lemma ws_run_free_no_spaces: "ws_run_free t \<Longrightarrow> \<not> sublist [SPACE, SPACE] t"
proof -
  assume "ws_run_free t"
  moreover have "isspace SPACE" by (simp add: isspace_def SPACE_def)
  ultimately show ?thesis unfolding ws_run_free_def by blast
qed

lemma tidy_text_cases:
  "tidy_text s = [] \<or>
   tidy_text s = strip (re_sub_ws (replace [CR] [SPACE] (replace [LF] [SPACE]
                   (replace [CR, LF] [SPACE] (strip s)))))"
  by (simp add: tidy_text_def Let_def)

lemma tidy_text_ws_run_free: "ws_run_free (tidy_text s)"
  using tidy_text_cases[of s] ws_run_free_Nil ws_run_free_strip[OF ws_run_free_re_sub_ws]
  by metis

lemma tidy_text_no_lead: "takeWhile isspace (tidy_text s) = []"
  using tidy_text_cases[of s] by (auto simp: takeWhile_strip)

lemma tidy_text_no_trail: "takeWhile isspace (rev (tidy_text s)) = []"
  using tidy_text_cases[of s] by (auto simp: takeWhile_rev_strip)

lemma tidy_text_no_CR: "CR \<notin> set (tidy_text s)"
proof -
  let ?r = "replace [CR] [SPACE] (replace [LF] [SPACE] (replace [CR, LF] [SPACE] (strip s)))"
  have "CR \<notin> set ?r" by (rule replace_char_absent) (simp add: CR_def SPACE_def)
  then have "CR \<notin> set (strip (re_sub_ws ?r))"
    using set_strip[of "re_sub_ws ?r"] set_re_sub_ws[of ?r] by (auto simp: CR_def SPACE_def)
  with tidy_text_cases[of s] show ?thesis by auto
qed

lemma tidy_text_no_LF: "LF \<notin> set (tidy_text s)"
proof -
  let ?l = "replace [LF] [SPACE] (replace [CR, LF] [SPACE] (strip s))"
  let ?r = "replace [CR] [SPACE] ?l"
  have "LF \<notin> set ?l" by (rule replace_char_absent) (simp add: LF_def SPACE_def)
  then have "LF \<notin> set ?r" using set_replace[of "[CR]" "[SPACE]" ?l]
    by (auto simp: LF_def SPACE_def)
  then have "LF \<notin> set (strip (re_sub_ws ?r))"
    using set_strip[of "re_sub_ws ?r"] set_re_sub_ws[of ?r] by (auto simp: LF_def SPACE_def)
  with tidy_text_cases[of s] show ?thesis by auto
qed

lemma tidy_text_fixed:
  assumes "takeWhile isspace t = []" "takeWhile isspace (rev t) = []"
    "CR \<notin> set t" "LF \<notin> set t" "ws_run_free t"
  shows "tidy_text t = t"
proof (cases "t = []")
  case True
  then show ?thesis by (simp add: tidy_text_def)
next
  case False
  have 1: "strip t = t" using assms(1,2) by (rule strip_id)
  have 2: "replace [CR, LF] [SPACE] t = t" using assms(3) by (simp add: replace_id)
  have 3: "replace [LF] [SPACE] t = t" using assms(4) by (simp add: replace_id)
  have 4: "replace [CR] [SPACE] t = t" using assms(3) by (simp add: replace_id)
  have 5: "re_sub_ws t = t" using assms(5) by (rule re_sub_ws_id)
  from False show ?thesis by (simp add: tidy_text_def 1 2 3 4 5)
qed

lemma isspace_CR [simp]: "isspace CR" and isspace_LF [simp]: "isspace LF"
  and isspace_SPACE [simp]: "isspace SPACE"
  by (simp_all add: isspace_def CR_def LF_def SPACE_def)

lemma replace_LF: "replace [LF] [SPACE] s = map (\<lambda>c. if c = LF then SPACE else c) s"
  by (induction s) auto

lemma replace_CR: "replace [CR] [SPACE] s = map (\<lambda>c. if c = CR then SPACE else c) s"
  by (induction s) auto

lemma replace_newlines:
  "replace [CR] [SPACE] (replace [LF] [SPACE] (replace [CR, LF] [SPACE] s)) =
   newlines_to_spaces s"
  unfolding replace_LF replace_CR
  by (induction s rule: newlines_to_spaces.induct) (auto simp: CR_def LF_def SPACE_def)

lemma newlines_keep: "\<not> isspace x \<Longrightarrow> newlines_to_spaces (x # cs) = x # newlines_to_spaces cs"
  by (cases cs) auto

lemma newlines_run:
  "\<not> isspace x \<Longrightarrow>
   newlines_to_spaces (ws @ x # cs) = newlines_to_spaces ws @ x # newlines_to_spaces cs"
proof (induction ws rule: newlines_to_spaces.induct)
  case (1 a b r)
  then show ?case by simp
next
  case (2 a)
  then have "x \<noteq> LF" by auto
  with 2 show ?case by (simp add: newlines_keep)
next
  case 3
  then show ?case by (simp add: newlines_keep)
qed

lemma newlines_ws: "list_all isspace ws \<Longrightarrow> list_all isspace (newlines_to_spaces ws)"
  by (induction ws rule: newlines_to_spaces.induct) auto

lemma newlines_Nil: "newlines_to_spaces ws = [] \<longleftrightarrow> ws = []"
  by (induction ws rule: newlines_to_spaces.induct) auto

lemma newlines_separator:
  assumes "ws \<noteq> []"
  shows "(if 2 \<le> length (newlines_to_spaces ws) then [SPACE] else newlines_to_spaces ws) =
         spec_separator ws"
proof (cases ws)
  case Nil
  with assms show ?thesis by simp
next
  case (Cons a r)
  show ?thesis
  proof (cases r)
    case Nil
    with Cons show ?thesis by (auto simp: spec_separator_def)
  next
    case c: (Cons b r')
    have ne: "newlines_to_spaces (b # r') \<noteq> []" by (simp add: newlines_Nil)
    show ?thesis
    proof (cases "a = CR \<and> b = LF")
      case True
      then show ?thesis
        using Cons c newlines_Nil[of r']
        by (cases "newlines_to_spaces r'") (auto simp: spec_separator_def)
    next
      case False
      then have "newlines_to_spaces ws =
          (if a = CR \<or> a = LF then SPACE else a) # newlines_to_spaces (b # r')"
        using Cons c by auto
      with ne have "2 \<le> length (newlines_to_spaces ws)"
        by (cases "newlines_to_spaces (b # r')") auto
      then show ?thesis using Cons c by (simp add: spec_separator_def)
    qed
  qed
qed

lemma takeWhile_run: "list_all P ws \<Longrightarrow> \<not> P x \<Longrightarrow> takeWhile P (ws @ x # cs) = ws"
  by (induction ws) auto

lemma dropWhile_run: "list_all P ws \<Longrightarrow> \<not> P x \<Longrightarrow> dropWhile P (ws @ x # cs) = x # cs"
  by (induction ws) auto

lemma re_sub_ws_run_sep:
  assumes "ws \<noteq> []" "list_all isspace ws" "\<not> isspace x"
  shows "re_sub_ws (ws @ x # cs) = (if 2 \<le> length ws then [SPACE] else ws) @ re_sub_ws (x # cs)"
proof -
  from assms(1) obtain c r where w: "ws = c # r" by (cases ws) auto
  have t: "takeWhile isspace (c # r @ x # cs) = ws"
    using takeWhile_run[OF assms(2,3), of cs] w by simp
  have d: "dropWhile isspace (c # r @ x # cs) = x # cs"
    using dropWhile_run[OF assms(2,3), of cs] w by simp
  show ?thesis
  proof (cases "2 \<le> length ws")
    case True
    then have "2 \<le> length (takeWhile isspace (c # r @ x # cs))" unfolding t .
    from re_sub_ws_run[OF this] True show ?thesis unfolding d w by simp
  next
    case False
    then have r: "r = []" using w by (cases r) auto
    from False have "\<not> 2 \<le> length (takeWhile isspace (c # r @ x # cs))" unfolding t .
    from re_sub_ws_norun[OF this] False w r show ?thesis by simp
  qed
qed

lemma re_sub_ws_all_ws: "list_all isspace ws \<Longrightarrow> list_all isspace (re_sub_ws ws)"
proof (cases ws)
  case Nil
  then show ?thesis by simp
next
  case (Cons c r)
  assume a: "list_all isspace ws"
  then have t: "takeWhile isspace (c # r) = ws" and d: "dropWhile isspace (c # r) = []"
    using Cons by (simp_all add: list_all_iff)
  show ?thesis
  proof (cases "2 \<le> length ws")
    case True
    then have "2 \<le> length (takeWhile isspace (c # r))" unfolding t .
    from re_sub_ws_run[OF this] show ?thesis unfolding d Cons by simp
  next
    case False
    then have r: "r = []" using Cons by (cases r) auto
    from False have "\<not> 2 \<le> length (takeWhile isspace (c # r))" unfolding t .
    from re_sub_ws_norun[OF this] a show ?thesis unfolding Cons r by simp
  qed
qed

lemma strip_rstrip: "strip s = rstrip (dropWhile isspace s)"
  by (simp add: strip_def rstrip_def)

lemma rstrip_Nil [simp]: "rstrip [] = []"
  by (simp add: rstrip_def)

lemma rstrip_keep: "\<not> isspace x \<Longrightarrow> rstrip (x # y) = x # rstrip y"
  by (simp add: rstrip_def dropWhile_append)

lemma rstrip_all_ws: "list_all isspace ws \<Longrightarrow> rstrip ws = []"
  by (simp add: rstrip_def list_all_iff)

lemma rstrip_append: "\<not> isspace x \<Longrightarrow> rstrip (a @ x # y) = a @ rstrip (x # y)"
  by (simp add: rstrip_def dropWhile_append)

lemma spec_runs_keep: "\<not> isspace x \<Longrightarrow> spec_runs (x # cs) = x # spec_runs cs"
  by (simp add: spec_runs.simps(2))

lemma spec_runs_all_ws: "list_all isspace ws \<Longrightarrow> spec_runs ws = []"
  by (cases ws) (simp_all add: spec_runs.simps(2) list_all_iff)

lemma spec_runs_run:
  assumes "ws \<noteq> []" "list_all isspace ws" "\<not> isspace x"
  shows "spec_runs (ws @ x # cs) = spec_separator ws @ spec_runs (x # cs)"
proof -
  from assms(1,2) obtain c r where w: "ws = c # r" and c: "isspace c" and r: "list_all isspace r"
    by (cases ws) auto
  have "takeWhile isspace (r @ x # cs) = r" "dropWhile isspace (r @ x # cs) = x # cs"
    using takeWhile_run[OF r assms(3)] dropWhile_run[OF r assms(3)] by simp_all
  with c show ?thesis unfolding w by (simp add: spec_runs.simps(2))
qed

text \<open>Every string starts with a character that is not whitespace, or is a whitespace
  run, or is a whitespace run followed by such a character.\<close>

lemma run_cases:
  assumes "isspace c"
  obtains (all_ws) "list_all isspace (c # cs)"
  | (run) x cs' where "\<not> isspace x" "dropWhile isspace cs = x # cs'"
      "c # cs = (c # takeWhile isspace cs) @ x # cs'" "list_all isspace (c # takeWhile isspace cs)"
proof (cases "dropWhile isspace cs")
  case Nil
  then have "list_all isspace (c # cs)" using assms by (simp add: list_all_iff)
  then show ?thesis by (rule all_ws)
next
  case (Cons x cs')
  have 1: "\<not> isspace x" using hd_dropWhile[of isspace cs] Cons by simp
  have 2: "c # cs = (c # takeWhile isspace cs) @ x # cs'"
    using takeWhile_dropWhile_id[of isspace cs] Cons by simp
  have 3: "list_all isspace (c # takeWhile isspace cs)"
    using assms by (auto simp: list_all_iff dest: set_takeWhileD)
  from 1 Cons 2 3 show ?thesis by (rule run)
qed

lemma rstrip_normal_form:
  "rstrip (re_sub_ws (newlines_to_spaces u)) = spec_runs u"
proof (induction u rule: spec_runs.induct)
  case 1
  show ?case by simp
next
  case (2 c cs)
  show ?case
  proof (cases "isspace c")
    case False
    with "2.IH"(2) show ?thesis
      by (simp add: newlines_keep re_sub_ws_keep rstrip_keep spec_runs_keep)
  next
    case True
    then show ?thesis
    proof (cases rule: run_cases[where cs = cs])
      case all_ws
      then have "rstrip (re_sub_ws (newlines_to_spaces (c # cs))) = []"
        by (intro rstrip_all_ws re_sub_ws_all_ws newlines_ws)
      with all_ws show ?thesis by (simp add: spec_runs_all_ws)
    next
      case (run x cs')
      let ?ws = "c # takeWhile isspace cs"
      have ne: "dropWhile isspace cs \<noteq> []" using run(2) by simp
      have ih: "rstrip (re_sub_ws (newlines_to_spaces (x # cs'))) = spec_runs (x # cs')"
        using "2.IH"(1)[OF True ne] run(2) by simp
      have n: "newlines_to_spaces (c # cs) =
                 newlines_to_spaces ?ws @ x # newlines_to_spaces cs'"
        using newlines_run[OF run(1), of ?ws cs'] run(3) by simp
      have nne: "newlines_to_spaces ?ws \<noteq> []" by (simp add: newlines_Nil)
      have "re_sub_ws (newlines_to_spaces (c # cs)) =
              spec_separator ?ws @ re_sub_ws (x # newlines_to_spaces cs')"
        unfolding n
        using re_sub_ws_run_sep[OF nne newlines_ws[OF run(4)] run(1)]
          newlines_separator[of ?ws]
        by simp
      then have "rstrip (re_sub_ws (newlines_to_spaces (c # cs))) =
              spec_separator ?ws @ rstrip (re_sub_ws (newlines_to_spaces (x # cs')))"
        using run(1) by (simp add: re_sub_ws_keep newlines_keep rstrip_append)
      also have "\<dots> = spec_separator ?ws @ spec_runs (x # cs')" unfolding ih ..
      also have "\<dots> = spec_runs (?ws @ x # cs')"
        using spec_runs_run[OF _ run(4) run(1)] by simp
      finally show ?thesis using run(3) by simp
    qed
  qed
qed

lemma spec_runs_rstrip: "spec_runs (rstrip t) = spec_runs t"
proof (induction t rule: spec_runs.induct)
  case 1
  show ?case by simp
next
  case (2 c cs)
  show ?case
  proof (cases "isspace c")
    case False
    with "2.IH"(2) show ?thesis by (simp add: rstrip_keep spec_runs_keep)
  next
    case True
    then show ?thesis
    proof (cases rule: run_cases[where cs = cs])
      case all_ws
      then show ?thesis by (simp add: rstrip_all_ws spec_runs_all_ws)
    next
      case (run x cs')
      let ?ws = "c # takeWhile isspace cs"
      have ne: "dropWhile isspace cs \<noteq> []" using run(2) by simp
      have ih: "spec_runs (rstrip (x # cs')) = spec_runs (x # cs')"
        using "2.IH"(1)[OF True ne] run(2) by simp
      have "rstrip (c # cs) = ?ws @ x # rstrip cs'"
        using rstrip_append[OF run(1), of ?ws cs'] run(1,3) by (simp add: rstrip_keep)
      then have "spec_runs (rstrip (c # cs)) = spec_separator ?ws @ spec_runs (x # rstrip cs')"
        using spec_runs_run[OF _ run(4) run(1)] by simp
      also have "\<dots> = spec_separator ?ws @ spec_runs (x # cs')"
        using ih run(1) by (simp add: rstrip_keep)
      also have "\<dots> = spec_runs (?ws @ x # cs')"
        using spec_runs_run[OF _ run(4) run(1)] by simp
      finally show ?thesis using run(3) by simp
    qed
  qed
qed

lemma tidy_text_spec: "tidy_text s = spec_normalize s"
proof (cases "s = []")
  case True
  then show ?thesis by (simp add: tidy_text_def spec_normalize_def)
next
  case False
  let ?v = "strip s"
  let ?g = "re_sub_ws (newlines_to_spaces ?v)"
  have "takeWhile isspace ?v = []" by (rule takeWhile_strip)
  then have "takeWhile isspace ?g = []"
    by (cases ?v) (auto simp: newlines_keep re_sub_ws_keep split: if_splits)
  then have "dropWhile isspace ?g = ?g" by (rule dropWhile_id)
  then have "strip ?g = rstrip ?g" by (simp add: strip_rstrip)
  also have "\<dots> = spec_runs ?v" by (rule rstrip_normal_form)
  also have "\<dots> = spec_runs (dropWhile isspace s)"
    unfolding strip_rstrip by (rule spec_runs_rstrip)
  finally show ?thesis
    using False by (simp add: tidy_text_def Let_def replace_newlines spec_normalize_def)
qed

lemma filter_spec_runs:
  "filter (\<lambda>c. \<not> isspace c) (spec_runs u) = filter (\<lambda>c. \<not> isspace c) u"
proof (induction u rule: spec_runs.induct)
  case 1
  show ?case by simp
next
  case (2 c cs)
  show ?case
  proof (cases "isspace c")
    case False
    with "2.IH"(2) show ?thesis by (simp add: spec_runs_keep)
  next
    case True
    then show ?thesis
    proof (cases rule: run_cases[where cs = cs])
      case all_ws
      then show ?thesis by (simp add: spec_runs_all_ws list_all_iff)
    next
      case (run x cs')
      let ?ws = "c # takeWhile isspace cs"
      have ne: "dropWhile isspace cs \<noteq> []" using run(2) by simp
      have ih: "filter (\<lambda>c. \<not> isspace c) (spec_runs (x # cs')) =
                filter (\<lambda>c. \<not> isspace c) (x # cs')"
        using "2.IH"(1)[OF True ne] run(2) by simp
      have sep: "filter (\<lambda>c. \<not> isspace c) (spec_separator ?ws) = []"
        using run(4) by (auto simp: spec_separator_def list_all_iff)
      have ws: "filter (\<lambda>c. \<not> isspace c) ?ws = []"
        using run(4) by (auto simp: list_all_iff)
      have "spec_runs (c # cs) = spec_separator ?ws @ spec_runs (x # cs')"
        using spec_runs_run[OF _ run(4) run(1), of cs'] run(3) by simp
      then have "filter (\<lambda>c. \<not> isspace c) (spec_runs (c # cs)) =
                 filter (\<lambda>c. \<not> isspace c) (x # cs')"
        using sep ih by simp
      also have "\<dots> = filter (\<lambda>c. \<not> isspace c) (?ws @ x # cs')"
        using ws by (simp only: filter_append append_Nil)
      finally show ?thesis using run(3) by simp
    qed
  qed
qed

lemma filter_tidy_text:
  "filter (\<lambda>c. \<not> isspace c) (tidy_text s) = filter (\<lambda>c. \<not> isspace c) s"
proof -
  have "filter (\<lambda>c. \<not> isspace c) (dropWhile isspace s) = filter (\<lambda>c. \<not> isspace c) s"
    by (induction s) auto
  then show ?thesis by (simp add: tidy_text_spec spec_normalize_def filter_spec_runs)
qed


text \<open>
  Claim C2. For every input string \<open>s\<close>, \<open>tidy_text s\<close> is the input with its leading
  and trailing whitespace removed, every whitespace run of two or more characters
  and every single newline character between two other characters turned into one
  space, and every other character kept: it is \<open>spec_normalize s\<close>, and the
  characters that are not whitespace are those of \<open>s\<close>, in order. So \<open>tidy_text s\<close>
  contains no newline character (neither line feed nor carriage return), contains no
  two space characters in a row (indeed no two whitespace characters in a row), and
  has no leading and no trailing whitespace: the run of whitespace at its start and
  the run of whitespace at its end are empty.
\<close>

theorem tidy_text_normal_form:
  "tidy_text s = spec_normalize s \<and>
   filter (\<lambda>c. \<not> isspace c) (tidy_text s) = filter (\<lambda>c. \<not> isspace c) s \<and>
   LF \<notin> set (tidy_text s) \<and> CR \<notin> set (tidy_text s) \<and>
   \<not> sublist [SPACE, SPACE] (tidy_text s) \<and>
   \<not> (\<exists>a b. isspace a \<and> isspace b \<and> sublist [a, b] (tidy_text s)) \<and>
   takeWhile isspace (tidy_text s) = [] \<and> takeWhile isspace (rev (tidy_text s)) = []"
proof -
  have "\<not> (\<exists>a b. isspace a \<and> isspace b \<and> sublist [a, b] (tidy_text s))"
    using tidy_text_ws_run_free[of s] unfolding ws_run_free_def by blast
  with tidy_text_spec filter_tidy_text tidy_text_no_LF tidy_text_no_CR tidy_text_no_lead
    tidy_text_no_trail ws_run_free_no_spaces[OF tidy_text_ws_run_free]
  show ?thesis by simp
qed

theorem tidy_text_normal_form_witness:
  "tidy_text (str ''  Hello'' @ [CR, LF] @ str ''World   !'' @ [9]) = str ''Hello World !'' \<and>
   tidy_text (str ''a'' @ [9] @ str ''b'' @ [LF] @ str ''c '' @ [CR, CR, LF] @ str ''d'') =
     str ''a'' @ [9] @ str ''b c d'' \<and>
   tidy_text [SPACE, LF, 9] = []"
  using tidy_text_normal_form[of "str ''  Hello'' @ [CR, LF] @ str ''World   !'' @ [9]"]
    tidy_text_normal_form[of "str ''a'' @ [9] @ str ''b'' @ [LF] @ str ''c '' @ [CR, CR, LF] @ str ''d''"]
    tidy_text_normal_form[of "[SPACE, LF, 9]"]
  by (simp add: spec_normalize_def spec_runs.simps(2) spec_separator_def str_def isspace_def
      SPACE_def CR_def LF_def)

text \<open>
  Claim C8. The normalizer is idempotent: for every string \<open>s\<close>, normalizing
  \<open>tidy_text s\<close> again gives \<open>tidy_text s\<close>; so every string that is already
  normalized is left as it is.
\<close>

theorem tidy_text_idempotent: "tidy_text (tidy_text s) = tidy_text s"
  by (rule tidy_text_fixed)
    (rule tidy_text_no_lead tidy_text_no_trail tidy_text_no_CR tidy_text_no_LF
      tidy_text_ws_run_free)+

section \<open>Properties of the speech worker and of the voice selection\<close>

lemma speak_eq:
  "speak self text =
     (if MIN_CHARS_TO_SPEAK \<le> length text then self\<lparr>q := q self @ [text]\<rparr> else self)"
  by (auto simp: speak_def MIN_CHARS_TO_SPEAK_def)

lemma iteration_empty: "q w = [] \<Longrightarrow> iteration outcome w = ([], Inr w)"
  by (simp add: iteration_def)

lemma iteration_pop:
  "q w = tx # rest \<Longrightarrow> iteration outcome w = ([tx], Inr (w\<lparr>q := rest\<rparr>))"
  by (cases outcome) (simp_all add: iteration_def try_except_def call_def)

lemma run_append:
  "run (es @ es') w sp =
     (case run es w sp of
        (sp', Inl e) \<Rightarrow> (sp', Inl e)
      | (sp', Inr w') \<Rightarrow> run es' w' sp')"
proof (induction es w sp rule: run.induct)
  case (1 w spoken)
  show ?case by simp
next
  case (2 tx es w spoken)
  then show ?case by simp
next
  case (3 outcome es w spoken)
  show ?case
  proof (cases "q w")
    case Nil
    with 3 show ?thesis by (simp add: iteration_empty)
  next
    case (Cons tx rest)
    with 3 show ?thesis by (simp add: iteration_pop)
  qed
qed

lemma run_rounds:
  "length (q w) \<le> length outs \<Longrightarrow>
   run (map Round outs) w sp = (sp @ q w, Inr (w\<lparr>q := []\<rparr>))"
proof (induction outs arbitrary: w sp)
  case Nil
  then show ?case by simp
next
  case (Cons out outs)
  show ?case
  proof (cases "q w")
    case Nil
    with Cons show ?thesis by (simp add: iteration_empty)
  next
    case c: (Cons tx rest)
    with Cons.prems have "length (q (w\<lparr>q := rest\<rparr>)) \<le> length outs" by simp
    from Cons.IH[OF this] c show ?thesis by (simp add: iteration_pop)
  qed
qed

lemma run_invariant:
  "\<forall>t\<in>set (submitted es). MIN_CHARS_TO_SPEAK \<le> length t \<Longrightarrow>
   \<exists>k\<le>length (q w @ submitted es).
     run es w sp = (sp @ take k (q w @ submitted es), Inr (w\<lparr>q := drop k (q w @ submitted es)\<rparr>))"
proof (induction es w sp rule: run.induct)
  case (1 w spoken)
  have "run [] w spoken = (spoken @ take 0 (q w @ submitted []), Inr (w\<lparr>q := drop 0 (q w @ submitted [])\<rparr>))"
    by simp
  then show ?case by blast
next
  case (2 tx es w spoken)
  from "2.prems" have v: "MIN_CHARS_TO_SPEAK \<le> length tx"
    and rest: "\<forall>t\<in>set (submitted es). MIN_CHARS_TO_SPEAK \<le> length t" by simp_all
  from v have s: "speak w tx = w\<lparr>q := q w @ [tx]\<rparr>" by (simp add: speak_eq)
  from "2.IH"[OF rest] s show ?case by simp
next
  case (3 outcome es w spoken)
  from "3.prems" have rest: "\<forall>t\<in>set (submitted es). MIN_CHARS_TO_SPEAK \<le> length t" by simp
  show ?case
  proof (cases "q w")
    case Nil
    then have it: "iteration outcome w = ([], Inr w)" by (rule iteration_empty)
    from "3.IH"[OF it[symmetric] refl rest] it show ?thesis by simp
  next
    case (Cons tx rest')
    then have it: "iteration outcome w = ([tx], Inr (w\<lparr>q := rest'\<rparr>))" by (rule iteration_pop)
    from "3.IH"[OF it[symmetric] refl rest]
    obtain k where k: "k \<le> length (rest' @ submitted es)"
      and r: "run es (w\<lparr>q := rest'\<rparr>) (spoken @ [tx]) =
                ((spoken @ [tx]) @ take k (rest' @ submitted es),
                 Inr (w\<lparr>q := drop k (rest' @ submitted es)\<rparr>))"
      by auto
    have "Suc k \<le> length (q w @ submitted (Round outcome # es))" using k Cons by simp
    moreover have "run (Round outcome # es) w spoken =
        (spoken @ take (Suc k) (q w @ submitted (Round outcome # es)),
         Inr (w\<lparr>q := drop (Suc k) (q w @ submitted (Round outcome # es))\<rparr>))"
      using r it Cons by simp
    ultimately show ?thesis by blast
  qed
qed

lemma run_alive: "\<exists>sp' w'. run es w sp = (sp', Inr w')"
proof (induction es w sp rule: run.induct)
  case (1 w spoken)
  show ?case by simp
next
  case (2 tx es w spoken)
  then show ?case by simp
next
  case (3 outcome es w spoken)
  show ?case
  proof (cases "q w")
    case Nil
    then have it: "iteration outcome w = ([], Inr w)" by (rule iteration_empty)
    from "3.IH"[OF it[symmetric] refl] it show ?thesis by simp
  next
    case (Cons tx rest)
    then have it: "iteration outcome w = ([tx], Inr (w\<lparr>q := rest\<rparr>))" by (rule iteration_pop)
    from "3.IH"[OF it[symmetric] refl] it show ?thesis by simp
  qed
qed

lemma run_spoken_all:
  "list_all P (q w) \<Longrightarrow> list_all P sp \<Longrightarrow>
   list_all (\<lambda>t. MIN_CHARS_TO_SPEAK \<le> length t \<longrightarrow> P t) (submitted es) \<Longrightarrow>
   list_all P (fst (run es w sp))"
proof (induction es w sp rule: run.induct)
  case (1 w spoken)
  then show ?case by simp
next
  case (2 tx es w spoken)
  from "2.prems"(3) have now: "MIN_CHARS_TO_SPEAK \<le> length tx \<longrightarrow> P tx"
    and later: "list_all (\<lambda>t. MIN_CHARS_TO_SPEAK \<le> length t \<longrightarrow> P t) (submitted es)"
    by simp_all
  have "list_all P (q (speak w tx))"
  proof (cases "MIN_CHARS_TO_SPEAK \<le> length tx")
    case True
    then have "q (speak w tx) = q w @ [tx]" by (simp add: speak_eq)
    with True now "2.prems"(1) show ?thesis by simp
  next
    case False
    then have "q (speak w tx) = q w" by (simp add: speak_eq)
    with "2.prems"(1) show ?thesis by simp
  qed
  from "2.IH"[OF this "2.prems"(2) later] show ?case by simp
next
  case (3 outcome es w spoken)
  from "3.prems"(3)
  have later: "list_all (\<lambda>t. MIN_CHARS_TO_SPEAK \<le> length t \<longrightarrow> P t) (submitted es)"
    by simp
  show ?case
  proof (cases "q w")
    case Nil
    then have it: "iteration outcome w = ([], Inr w)" by (rule iteration_empty)
    have "list_all P (spoken @ [])" using "3.prems"(2) by simp
    from "3.IH"[OF it[symmetric] refl "3.prems"(1) this later] it show ?thesis by simp
  next
    case (Cons tx rest)
    then have it: "iteration outcome w = ([tx], Inr (w\<lparr>q := rest\<rparr>))" by (rule iteration_pop)
    from "3.prems"(1) Cons have "P tx" and r: "list_all P rest" by simp_all
    then have sp: "list_all P (spoken @ [tx])" using "3.prems"(2) by simp
    from r have "list_all P (q (w\<lparr>q := rest\<rparr>))" by simp
    from "3.IH"[OF it[symmetric] refl this sp later] it show ?thesis by simp
  qed
qed

text \<open>
  Claim C6. For every string \<open>text\<close>, \<open>speak\<close> puts \<open>text\<close> at the end of the queue
  exactly when its length reaches \<open>MIN_CHARS_TO_SPEAK\<close>, and otherwise leaves the
  object as it is. So in every run that starts with an empty queue, every text passed
  to \<open>voice.Speak\<close> was submitted and is at least \<open>MIN_CHARS_TO_SPEAK\<close> long: a
  shorter string never reaches the engine.
\<close>

theorem speak_threshold:
  "speak self text =
     (if MIN_CHARS_TO_SPEAK \<le> length text then self\<lparr>q := q self @ [text]\<rparr> else self) \<and>
   (\<forall>t\<in>set (fst (run es \<lparr>q = [], match = m, voice = v\<rparr> [])).
      t \<in> set (submitted es) \<and> MIN_CHARS_TO_SPEAK \<le> length t)"
proof
  show "speak self text =
     (if MIN_CHARS_TO_SPEAK \<le> length text then self\<lparr>q := q self @ [text]\<rparr> else self)"
    by (rule speak_eq)
  let ?P = "\<lambda>t. t \<in> set (submitted es) \<and> MIN_CHARS_TO_SPEAK \<le> length t"
  let ?w = "\<lparr>q = [], match = m, voice = v\<rparr>"
  have 1: "list_all ?P (q ?w)" by simp
  have 2: "list_all ?P []" by simp
  have 3: "list_all (\<lambda>t. MIN_CHARS_TO_SPEAK \<le> length t \<longrightarrow> ?P t) (submitted es)"
    unfolding list_all_iff by blast
  from run_spoken_all[of ?P ?w "[]" es, OF 1 2 3]
  show "\<forall>t\<in>set (fst (run es ?w [])). ?P t" unfolding list_all_iff .
qed

theorem speak_threshold_witness:
  "speak \<lparr>q = [], match = []\<rparr> (str ''hi'') = \<lparr>q = [], match = []\<rparr> \<and>
   speak \<lparr>q = [], match = []\<rparr> (str ''hey'') = \<lparr>q = [str ''hey''], match = []\<rparr> \<and>
   fst (run [Submit (str ''hi''), Round None, Submit (str ''hey''), Round None]
          \<lparr>q = [], match = [], voice = \<lparr>Voice = \<lparr>token_id = 0, description = []\<rparr>, Rate = 0, Volume = 100\<rparr>\<rparr> [])
     = [str ''hey'']"
  using speak_threshold[of "\<lparr>q = [], match = []\<rparr>" "str ''hi''"]
    speak_threshold[of "\<lparr>q = [], match = []\<rparr>" "str ''hey''"]
  by (simp add: speak_def str_def MIN_CHARS_TO_SPEAK_def iteration_def try_except_def call_def)

text \<open>
  Claim C7. Let every submitted text reach the minimum length and the queue start
  empty. At every moment of a run, whatever the rounds between the submissions and
  whatever each \<open>Speak\<close> does, the texts spoken so far are the first \<open>k\<close> submitted
  ones in their order, and the queue holds the others in their order. Once the worker
  has made as many further rounds as there are submissions, the texts passed to
  \<open>voice.Speak\<close> are exactly the submitted ones, in submission order, and the queue
  is empty.
\<close>

theorem speak_in_submission_order:
  assumes "\<forall>t\<in>set (submitted es). MIN_CHARS_TO_SPEAK \<le> length t" and "q w = []"
  shows "(\<exists>k\<le>length (submitted es).
            run es w [] = (take k (submitted es), Inr (w\<lparr>q := drop k (submitted es)\<rparr>))) \<and>
         (length (submitted es) \<le> length outs \<longrightarrow>
            run (es @ map Round outs) w [] = (submitted es, Inr w))"
proof
  from run_invariant[OF assms(1), of w "[]"] assms(2)
  show inv: "\<exists>k\<le>length (submitted es).
            run es w [] = (take k (submitted es), Inr (w\<lparr>q := drop k (submitted es)\<rparr>))"
    by simp
  show "length (submitted es) \<le> length outs \<longrightarrow>
            run (es @ map Round outs) w [] = (submitted es, Inr w)"
  proof
    assume len: "length (submitted es) \<le> length outs"
    from inv obtain k where
      r: "run es w [] = (take k (submitted es), Inr (w\<lparr>q := drop k (submitted es)\<rparr>))"
      by blast
    have "length (q (w\<lparr>q := drop k (submitted es)\<rparr>)) \<le> length outs" using len by simp
    from run_rounds[OF this, of "take k (submitted es)"] r assms(2)
    show "run (es @ map Round outs) w [] = (submitted es, Inr w)"
      by (simp add: run_append)
  qed
qed

theorem speak_in_submission_order_witness:
  "run ([Submit (str ''one''), Submit (str ''two''), Round (Some (Exception ''Speak'')),
         Submit (str ''three'')] @ map Round [None, None, None])
     \<lparr>q = [], match = str ''natural'', voice = default_engine\<rparr> [] =
   ([str ''one'', str ''two'', str ''three''],
    Inr \<lparr>q = [], match = str ''natural'', voice = default_engine\<rparr>)"
  using speak_in_submission_order[where
      es = "[Submit (str ''one''), Submit (str ''two''), Round (Some (Exception ''Speak'')),
             Submit (str ''three'')]"
      and w = "\<lparr>q = [], match = str ''natural'', voice = default_engine\<rparr>"
      and outs = "[None, None, None]"]
  by (simp add: MIN_CHARS_TO_SPEAK_def str_def)

text \<open>
  Claim C5. A round that takes \<open>tx\<close> from the queue and whose \<open>voice.Speak\<close> raises
  \<open>e\<close> ends without an exception: the worker is as before except that \<open>tx\<close> has left
  the queue, which is also what a successful \<open>Speak\<close> gives, and the run goes on with
  the next events from there.
\<close>

theorem speak_error_discarded:
  assumes "q w = tx # rest"
  shows "iteration (Some e) w = ([tx], Inr (w\<lparr>q := rest\<rparr>)) \<and>
         iteration (Some e) w = iteration None w \<and>
         run (Round (Some e) # es) w sp = run es (w\<lparr>q := rest\<rparr>) (sp @ [tx])"
  using assms by (simp add: iteration_pop)

lemma scan_find:
  "m \<noteq> [] \<Longrightarrow>
   scan lower m (map Inr tokens) = Inr (find (\<lambda>t. contains m (lower (description t))) tokens)"
  by (induction tokens) auto

lemma scan_empty: "scan lower [] (map Inr tokens) = Inr None"
  by (induction tokens) auto

lemma tune_Inr: "\<exists>v'. tune io v = Inr v' \<and> Voice v' = Voice v"
  by (auto simp: tune_def call_def try_except_def split: option.splits)

lemma tune_defaults:
  "tune io v = Inr v' \<Longrightarrow>
   (set_Rate io SAPI_RATE \<noteq> None \<longrightarrow> v' = v) \<and>
   (set_Rate io SAPI_RATE = None \<longrightarrow> set_Volume io SAPI_VOLUME \<noteq> None \<longrightarrow> v' = v\<lparr>Rate := SAPI_RATE\<rparr>)"
  by (auto simp: tune_def call_def try_except_def split: option.splits)

lemma startup_ok:
  assumes "CoInitialize io = None" "Dispatch io = Inr v" "GetVoices io = Inr items"
    "scan lower (match self) items = Inr selected"
    "\<And>tok. selected = Some tok \<Longrightarrow> set_Voice io tok = None \<and> get_Voice_GetDescription io = None"
  shows "\<exists>v'. tune io (case selected of Some tok \<Rightarrow> v\<lparr>Voice := tok\<rparr> | None \<Rightarrow> v) = Inr v' \<and>
          startup lower io self = Inr \<lparr>q = q self, match = match self, voice = v'\<rparr>"
proof -
  let ?v1 = "case selected of Some tok \<Rightarrow> v\<lparr>Voice := tok\<rparr> | None \<Rightarrow> v"
  from tune_Inr[of io ?v1] obtain v' where t: "tune io ?v1 = Inr v'" by blast
  have "startup lower io self = Inr \<lparr>q = q self, match = match self, voice = v'\<rparr>"
  proof (cases selected)
    case None
    with assms(1-4) t show ?thesis by (simp add: startup_def call_def)
  next
    case (Some tok)
    with assms(5) have "set_Voice io tok = None" "get_Voice_GetDescription io = None" by simp_all
    with assms(1-4) t Some show ?thesis by (simp add: startup_def call_def)
  qed
  with t show ?thesis by blast
qed

lemmas example_defs =
  David_def Natural_II_def Zira_def Natural_III_def default_engine_def working_sapi_def

lemma contains_Nil [simp]: "contains [] s"
  by (cases s) simp_all

lemma match_init: "match (SapiNaturalSpeaker lower (Some m)) = lower m"
  by (simp add: SapiNaturalSpeaker_def)

lemma match_init_empty:
  "lower [] = [] \<Longrightarrow> m = None \<or> m = Some [] \<Longrightarrow> match (SapiNaturalSpeaker lower m) = []"
  by (auto simp: SapiNaturalSpeaker_def)

lemma startup_Voice:
  assumes "CoInitialize io = None" "Dispatch io = Inr v" "GetVoices io = Inr (map Inr tokens)"
    "scan lower (match self) (map Inr tokens) = Inr selected"
    "\<forall>tok. set_Voice io tok = None" "get_Voice_GetDescription io = None"
  shows "\<exists>w. startup lower io self = Inr w \<and>
          Voice (voice w) = (case selected of Some tok \<Rightarrow> tok | None \<Rightarrow> Voice v)"
proof -
  let ?v1 = "case selected of Some tok \<Rightarrow> v\<lparr>Voice := tok\<rparr> | None \<Rightarrow> v"
  from startup_ok[OF assms(1-4)] assms(5,6)
  obtain v' where t: "tune io ?v1 = Inr v'"
    and s: "startup lower io self = Inr \<lparr>q = q self, match = match self, voice = v'\<rparr>"
    by blast
  from tune_Inr[of io ?v1] t have "Voice v' = Voice ?v1" by simp
  then have "Voice v' = (case selected of Some tok \<Rightarrow> tok | None \<Rightarrow> Voice v)"
    by (cases selected) simp_all
  with s show ?thesis by simp
qed

text \<open>
  Claim C3, amended. For a match string whose lower-cased form is not empty, and an
  engine whose calls of the start succeed, the voice active after the start is the
  first enumerated token whose description contains the match string
  case-insensitively, and the default voice of the engine if there is none.
\<close>

theorem first_match_selected:
  assumes "lower m \<noteq> []" "CoInitialize io = None" "Dispatch io = Inr v"
    "GetVoices io = Inr (map Inr tokens)" "\<forall>tok. set_Voice io tok = None"
    "get_Voice_GetDescription io = None"
  shows "\<exists>w. startup lower io (SapiNaturalSpeaker lower (Some m)) = Inr w \<and>
          Voice (voice w) =
            (case find (\<lambda>t. contains_ci lower m (description t)) tokens of
               Some tok \<Rightarrow> tok | None \<Rightarrow> Voice v)"
proof -
  have "scan lower (match (SapiNaturalSpeaker lower (Some m))) (map Inr tokens) =
          Inr (find (\<lambda>t. contains_ci lower m (description t)) tokens)"
    using scan_find[OF assms(1), of lower tokens] by (simp add: match_init contains_ci_def)
  from startup_Voice[OF assms(2-4) this assms(5,6)] show ?thesis .
qed

theorem first_match_selected_witness:
  "ascii_lower (str ''natural'') \<noteq> [] \<and>
   (\<exists>w. startup ascii_lower (working_sapi [David, Natural_II, Zira])
           (SapiNaturalSpeaker ascii_lower (Some (str ''natural''))) = Inr w \<and>
        Voice (voice w) = Natural_II)"
  using first_match_selected[of ascii_lower "str ''natural''" "working_sapi [David, Natural_II, Zira]"
      default_engine "[David, Natural_II, Zira]"]
  by (simp add: example_defs contains_ci_def ascii_lower_def str_def)

text \<open>
  Claim C3 as stated fails for the empty match string: the description of the first
  token contains it, yet the start leaves the default voice of the engine active.
\<close>

theorem empty_match_counterexample:
  "contains_ci ascii_lower [] (description David) \<and>
   startup ascii_lower (working_sapi [David, Natural_II, Zira])
     (SapiNaturalSpeaker ascii_lower (Some [])) =
   Inr \<lparr>q = [], match = [], voice = \<lparr>Voice = Zira, Rate = 0, Volume = 100\<rparr>\<rparr>"
  by (simp add: example_defs contains_ci_def ascii_lower_def startup_def SapiNaturalSpeaker_def
      call_def tune_def SAPI_RATE_def SAPI_VOLUME_def)

text \<open>
  Claim C10. For a speaker built with \<open>None\<close> or with the empty string, the scan
  selects no token and the start leaves the default voice of the engine active,
  although the empty \<open>_match\<close> is contained in every lower-cased description.
\<close>

theorem empty_match_keeps_default:
  assumes "lower [] = []" "m = None \<or> m = Some []" "CoInitialize io = None"
    "Dispatch io = Inr v" "GetVoices io = Inr (map Inr tokens)"
  shows "scan lower (match (SapiNaturalSpeaker lower m)) (map Inr tokens) = Inr None \<and>
         (\<exists>w. startup lower io (SapiNaturalSpeaker lower m) = Inr w \<and> Voice (voice w) = Voice v) \<and>
         (\<forall>t\<in>set tokens. contains (match (SapiNaturalSpeaker lower m)) (lower (description t)))"
proof -
  let ?self = "SapiNaturalSpeaker lower m"
  from assms(1,2) have e: "match ?self = []" by (rule match_init_empty)
  then have sc: "scan lower (match ?self) (map Inr tokens) = Inr None" by (simp add: scan_empty)
  from startup_ok[OF assms(3-5) sc]
  obtain v' where t: "tune io v = Inr v'"
    and s: "startup lower io ?self = Inr \<lparr>q = q ?self, match = match ?self, voice = v'\<rparr>"
    by auto
  from tune_Inr[of io v] t have "Voice v' = Voice v" by simp
  with s have "\<exists>w. startup lower io ?self = Inr w \<and> Voice (voice w) = Voice v" by simp
  with sc e show ?thesis by simp
qed

theorem empty_match_keeps_default_witness:
  "ascii_lower [] = [] \<and>
   scan ascii_lower (match (SapiNaturalSpeaker ascii_lower None)) (map Inr [David, Natural_II]) =
     Inr None \<and>
   (\<exists>w. startup ascii_lower (working_sapi [David, Natural_II]) (SapiNaturalSpeaker ascii_lower None)
           = Inr w \<and> Voice (voice w) = Zira) \<and>
   contains (match (SapiNaturalSpeaker ascii_lower None)) (ascii_lower (description David))"
  using empty_match_keeps_default[of ascii_lower None "working_sapi [David, Natural_II]"
      default_engine "[David, Natural_II]"]
  by (simp add: example_defs ascii_lower_def SapiNaturalSpeaker_def)

lemma voice_test_scan_filter:
  "voice_test_scan lower (map Inr tokens) chosen =
     Inr (case filter (\<lambda>t. contains (str ''natural'') (lower (description t))) tokens of
            [] \<Rightarrow> chosen | ms \<Rightarrow> Some (last ms))"
proof (induction tokens arbitrary: chosen)
  case Nil
  show ?case by simp
next
  case (Cons tok tokens)
  show ?case
    by (cases "filter (\<lambda>t. contains (str ''natural'') (lower (description t))) tokens")
      (simp_all add: Cons.IH)
qed

lemma find_hd_filter: "filter P xs \<noteq> [] \<Longrightarrow> find P xs = Some (hd (filter P xs))"
  by (induction xs) auto

text \<open>
  Claim C9. When at least two enumerated descriptions contain \<open>natural\<close>
  case-insensitively, the script speaks its test phrase with the last such token
  active, while the scan of the speech worker selects the first one.
\<close>

theorem voice_test_last_match:
  assumes "lower (str ''natural'') = str ''natural''" "Dispatch io = Inr v"
    "GetVoices io = Inr (map Inr tokens)" "\<forall>tok. set_Voice io tok = None"
    "get_Voice_GetDescription io = None"
    "2 \<le> length (filter (\<lambda>t. contains_ci lower (str ''natural'') (description t)) tokens)"
  shows "voice_test lower io None =
           Inr (last (filter (\<lambda>t. contains_ci lower (str ''natural'') (description t)) tokens),
                test_phrase) \<and>
         scan lower (match (SapiNaturalSpeaker lower (Some NATURAL_MATCH_SUBSTR))) (map Inr tokens) =
           Inr (Some (hd (filter (\<lambda>t. contains_ci lower (str ''natural'') (description t)) tokens)))"
proof -
  let ?P = "\<lambda>t. contains (str ''natural'') (lower (description t))"
  have P: "(\<lambda>t. contains_ci lower (str ''natural'') (description t)) = ?P"
    by (simp add: contains_ci_def assms(1))
  from assms(6) have ne: "filter ?P tokens \<noteq> []" unfolding P by auto
  then obtain x xs where f: "filter ?P tokens = x # xs" by (cases "filter ?P tokens") auto
  have "voice_test_scan lower (map Inr tokens) None = Inr (Some (last (filter ?P tokens)))"
    unfolding voice_test_scan_filter f by simp
  then have 1: "voice_test lower io None = Inr (last (filter ?P tokens), test_phrase)"
    using assms(2-5) by (simp add: voice_test_def call_def)
  have n: "str ''natural'' \<noteq> []" by (simp add: str_def)
  have "match (SapiNaturalSpeaker lower (Some NATURAL_MATCH_SUBSTR)) = str ''natural''"
    by (simp add: match_init NATURAL_MATCH_SUBSTR_def assms(1))
  then have 2: "scan lower (match (SapiNaturalSpeaker lower (Some NATURAL_MATCH_SUBSTR)))
                  (map Inr tokens) = Inr (Some (hd (filter ?P tokens)))"
    using scan_find[OF n, of lower tokens] find_hd_filter[OF ne] by simp
  from 1 2 show ?thesis unfolding P by simp
qed

theorem voice_test_last_match_witness:
  "voice_test ascii_lower (working_sapi [Natural_II, David, Natural_III, Zira]) None =
     Inr (Natural_III, test_phrase) \<and>
   scan ascii_lower (match (SapiNaturalSpeaker ascii_lower (Some NATURAL_MATCH_SUBSTR)))
     (map Inr [Natural_II, David, Natural_III, Zira]) = Inr (Some Natural_II)"
  using voice_test_last_match[of ascii_lower "working_sapi [Natural_II, David, Natural_III, Zira]"
      default_engine "[Natural_II, David, Natural_III, Zira]"]
  by (simp add: example_defs contains_ci_def ascii_lower_def str_def)

text \<open>
  Claim C4 as stated fails for an error of the service initialization: when
  \<open>Dispatch\<close> raises, the exception leaves \<open>_run\<close> and the worker loop is never entered.
\<close>

theorem startup_error_counterexample:
  "startup ascii_lower
     ((working_sapi [David, Natural_II, Zira])\<lparr>Dispatch := Inl (Exception ''SAPI.SpVoice'')\<rparr>)
     (SapiNaturalSpeaker ascii_lower (Some NATURAL_MATCH_SUBSTR)) =
   Inl (Exception ''SAPI.SpVoice'')"
  by (simp add: working_sapi_def startup_def call_def try_finally_def)

lemma tune_not_Inl: "tune io v \<noteq> Inl e"
  using tune_Inr[of io v] by auto

lemma startup_raises_iff:
  "isl (startup lower io self) \<longleftrightarrow> startup_call_raises lower io self"
  by (auto simp: startup_def startup_call_raises_def call_def Let_def try_finally_def
      tune_not_Inl split: option.splits sum.splits)

text \<open>
  Claim C4, amended. When the calls of the start before the tuning succeed, then for
  every outcome of the two tuning assignments the worker enters its loop; a failed
  rate assignment leaves rate and volume at the engine's defaults, a failed volume
  assignment leaves the volume at its default; and from then on no run of events ends
  the worker. For every engine, an exception leaves \<open>_run\<close> before the loop exactly
  when one of the calls before the tuning raises.
\<close>

theorem tuning_failure_ignored:
  assumes "CoInitialize io = None" "Dispatch io = Inr v" "GetVoices io = Inr (map Inr tokens)"
    "\<forall>tok. set_Voice io tok = None" "get_Voice_GetDescription io = None"
  shows "(\<exists>w. startup lower (io\<lparr>set_Rate := r, set_Volume := vol\<rparr>) self = Inr w \<and>
          (r SAPI_RATE \<noteq> None \<longrightarrow> Rate (voice w) = Rate v \<and> Volume (voice w) = Volume v) \<and>
          (r SAPI_RATE = None \<and> vol SAPI_VOLUME \<noteq> None \<longrightarrow>
             Rate (voice w) = SAPI_RATE \<and> Volume (voice w) = Volume v) \<and>
          (\<forall>es. \<exists>spoken w'. run es w [] = (spoken, Inr w'))) \<and>
         (\<forall>io'. isl (startup lower io' self) \<longleftrightarrow> startup_call_raises lower io' self)"
proof (rule conjI)
  show "\<forall>io'. isl (startup lower io' self) \<longleftrightarrow> startup_call_raises lower io' self"
    by (simp add: startup_raises_iff)
next
  let ?io = "io\<lparr>set_Rate := r, set_Volume := vol\<rparr>"
  from scan_find[of "match self" lower tokens] scan_empty[of lower tokens]
  obtain selected where sc: "scan lower (match self) (map Inr tokens) = Inr selected"
    by (cases "match self = []") auto
  let ?v1 = "case selected of Some tok \<Rightarrow> v\<lparr>Voice := tok\<rparr> | None \<Rightarrow> v"
  have a: "CoInitialize ?io = None" "Dispatch ?io = Inr v" "GetVoices ?io = Inr (map Inr tokens)"
    using assms(1-3) by simp_all
  have b: "\<And>tok. selected = Some tok \<Longrightarrow>
             set_Voice ?io tok = None \<and> get_Voice_GetDescription ?io = None"
    using assms(4,5) by simp
  from startup_ok[OF a sc b]
  obtain v' where t: "tune ?io ?v1 = Inr v'"
    and s: "startup lower ?io self = Inr \<lparr>q = q self, match = match self, voice = v'\<rparr>"
    by blast
  have rv: "Rate ?v1 = Rate v" "Volume ?v1 = Volume v" by (cases selected; simp)+
  from tune_defaults[OF t] rv
  have "(r SAPI_RATE \<noteq> None \<longrightarrow> Rate v' = Rate v \<and> Volume v' = Volume v) \<and>
        (r SAPI_RATE = None \<and> vol SAPI_VOLUME \<noteq> None \<longrightarrow>
           Rate v' = SAPI_RATE \<and> Volume v' = Volume v)"
    by auto
  with s run_alive
  show "\<exists>w. startup lower (io\<lparr>set_Rate := r, set_Volume := vol\<rparr>) self = Inr w \<and>
          (r SAPI_RATE \<noteq> None \<longrightarrow> Rate (voice w) = Rate v \<and> Volume (voice w) = Volume v) \<and>
          (r SAPI_RATE = None \<and> vol SAPI_VOLUME \<noteq> None \<longrightarrow>
             Rate (voice w) = SAPI_RATE \<and> Volume (voice w) = Volume v) \<and>
          (\<forall>es. \<exists>spoken w'. run es w [] = (spoken, Inr w'))"
    by simp
qed

theorem tuning_failure_ignored_witness:
  "startup ascii_lower
     ((working_sapi [David, Natural_II, Zira])
        \<lparr>set_Rate := \<lambda>r. Some (Exception ''Rate''), set_Volume := \<lambda>v. None\<rparr>)
     (SapiNaturalSpeaker ascii_lower (Some NATURAL_MATCH_SUBSTR)) =
     Inr \<lparr>q = [], match = str ''natural'', voice = \<lparr>Voice = Natural_II, Rate = 2, Volume = 80\<rparr>\<rparr> \<and>
   fst (run [Submit (str ''abc''), Round (Some (Exception ''Speak'')), Round None]
          \<lparr>q = [], match = str ''natural'', voice = \<lparr>Voice = Natural_II, Rate = 2, Volume = 80\<rparr>\<rparr> [])
     = [str ''abc'']"
  using tuning_failure_ignored[where io = "working_sapi [David, Natural_II, Zira]"
      and v = default_engine and tokens = "[David, Natural_II, Zira]"
      and r = "\<lambda>r. Some (Exception ''Rate'')" and vol = "\<lambda>v. None" and lower = ascii_lower
      and self = "SapiNaturalSpeaker ascii_lower (Some NATURAL_MATCH_SUBSTR)"]
  by (simp add: example_defs startup_def SapiNaturalSpeaker_def NATURAL_MATCH_SUBSTR_def
      ascii_lower_def str_def call_def tune_def try_except_def speak_def
      MIN_CHARS_TO_SPEAK_def iteration_def SAPI_RATE_def)

theorem speak_error_discarded_witness:
  "iteration (Some (Exception ''Speak''))
     \<lparr>q = [str ''abc'', str ''def''], match = str ''natural'', voice = default_engine\<rparr> =
   ([str ''abc''], Inr \<lparr>q = [str ''def''], match = str ''natural'', voice = default_engine\<rparr>) \<and>
   run [Round (Some (Exception ''Speak'')), Round None]
     \<lparr>q = [str ''abc'', str ''def''], match = str ''natural'', voice = default_engine\<rparr> [] =
   ([str ''abc'', str ''def''], Inr \<lparr>q = [], match = str ''natural'', voice = default_engine\<rparr>)"
  using speak_error_discarded[where
      w = "\<lparr>q = [str ''abc'', str ''def''], match = str ''natural'', voice = default_engine\<rparr>"
      and tx = "str ''abc''" and rest = "[str ''def'']" and e = "Exception ''Speak''"
      and es = "[Round None]" and sp = "[]"]
  by (simp add: iteration_def try_except_def call_def)

section \<open>Properties of the clipboard watcher\<close>

lemma get_clipboard_text_Inr: "\<exists>t. get_clipboard_text w = Inr t"
  by (auto simp: get_clipboard_text_def try_finally_def try_except_def call_def
      split: option.splits sum.splits bool.splits clipdata.splits)

lemma get_clipboard_text_fails: "read_fails w \<Longrightarrow> get_clipboard_text w = Inr None"
  by (auto simp: read_fails_def get_clipboard_text_def try_finally_def try_except_def call_def
      split: option.splits sum.splits bool.splits clipdata.splits)

lemma not_changed_fails: "read_fails w \<Longrightarrow> \<not> changed baseline w"
  by (simp add: changed_def get_clipboard_text_fails)

lemma poll_loop_timeout:
  "\<not> time_time (Suc k) - start < timeout_s \<Longrightarrow>
   poll_loop time_time clip baseline timeout_s start k = Some (Inr None)"
  by (subst poll_loop.simps) simp

lemma poll_loop_changed:
  "time_time (Suc k) - start < timeout_s \<Longrightarrow> changed baseline (clip k) \<Longrightarrow>
   poll_loop time_time clip baseline timeout_s start k = Some (get_clipboard_text (clip k))"
  by (subst poll_loop.simps) (auto simp: changed_def split: sum.splits option.splits)

lemma poll_loop_continue:
  "time_time (Suc k) - start < timeout_s \<Longrightarrow> \<not> changed baseline (clip k) \<Longrightarrow>
   poll_loop time_time clip baseline timeout_s start k =
   poll_loop time_time clip baseline timeout_s start (Suc k)"
  using get_clipboard_text_Inr[of "clip k"]
  by (subst poll_loop.simps) (auto simp: changed_def split: sum.splits option.splits)

lemma poll_loop_skip:
  "\<forall>i<n. time_time (Suc (k + i)) - start < timeout_s \<and> \<not> changed baseline (clip (k + i)) \<Longrightarrow>
   poll_loop time_time clip baseline timeout_s start k =
   poll_loop time_time clip baseline timeout_s start (k + n)"
proof (induction n arbitrary: k)
  case 0
  show ?case by simp
next
  case (Suc n)
  from Suc.prems have "time_time (Suc k) - start < timeout_s" "\<not> changed baseline (clip k)"
    by force+
  then have 1: "poll_loop time_time clip baseline timeout_s start k =
                poll_loop time_time clip baseline timeout_s start (Suc k)"
    by (rule poll_loop_continue)
  have "\<forall>i<n. time_time (Suc (Suc k + i)) - start < timeout_s \<and>
               \<not> changed baseline (clip (Suc k + i))"
  proof (intro allI impI)
    fix i assume "i < n"
    then have "Suc i < Suc n" by simp
    with Suc.prems have "time_time (Suc (k + Suc i)) - start < timeout_s \<and>
                         \<not> changed baseline (clip (k + Suc i))" by blast
    then show "time_time (Suc (Suc k + i)) - start < timeout_s \<and>
               \<not> changed baseline (clip (Suc k + i))" by simp
  qed
  from Suc.IH[OF this] 1 show ?case by simp
qed

lemma poll_loop_no_exception:
  assumes "poll_loop time_time clip baseline timeout_s start k = Some r"
  shows "\<not> isl r"
proof (rule poll_loop.raw_induct[OF _ assms, where P = "\<lambda>_ _ _ _ _ _ r. \<not> isl r"])
  fix f :: "(nat \<Rightarrow> real) \<Rightarrow> (nat \<Rightarrow> clipboard) \<Rightarrow> pystr \<Rightarrow> real \<Rightarrow> real \<Rightarrow> nat \<Rightarrow>
            (exn + pystr option) option"
    and tt c b T s k y
  assume IH: "\<And>tt c b T s k y. f tt c b T s k = Some y \<Longrightarrow> \<not> isl y"
  assume step:
    "(if tt (Suc k) - s < T
      then case get_clipboard_text (c k) of
             Inl e \<Rightarrow> Some (Inl e)
           | Inr None \<Rightarrow> f tt c b T s (Suc k)
           | Inr (Some current) \<Rightarrow>
               if current \<noteq> [] \<and> current \<noteq> b then Some (Inr (Some current))
               else f tt c b T s (Suc k)
      else Some (Inr None)) = Some y"
  from get_clipboard_text_Inr[of "c k"] obtain t where
    t: "get_clipboard_text (c k) = Inr t" by blast
  show "\<not> isl y"
  proof (cases "tt (Suc k) - s < T")
    case False
    with step show ?thesis by auto
  next
    case True
    show ?thesis
    proof (cases t)
      case None
      with step True t have "f tt c b T s (Suc k) = Some y" by simp
      then show ?thesis by (rule IH)
    next
      case (Some current)
      show ?thesis
      proof (cases "current \<noteq> [] \<and> current \<noteq> b")
        case True
        with step \<open>tt (Suc k) - s < T\<close> t Some show ?thesis by auto
      next
        case False
        with step True t Some have "f tt c b T s (Suc k) = Some y" by auto
        then show ?thesis by (rule IH)
      qed
    qed
  qed
qed

text \<open>
  Claim C1. Let the first \<open>n\<close> rounds of the loop fall inside the timeout and show no
  change. If round \<open>n\<close> is inside the timeout and its read gives a non-empty text other
  than the baseline, \<open>wait_for_clip_change\<close> returns that text, the first such sample.
  If the timeout has elapsed at the test of round \<open>n\<close>, it returns \<open>None\<close>. A read that
  fails gives \<open>None\<close> for its round, which is no change, so the next round reads again.
  No exception ever leaves \<open>wait_for_clip_change\<close>.
\<close>

theorem wait_for_clip_change_result:
  assumes "\<forall>k<n. time_time (Suc k) - time_time 0 < timeout_s \<and> \<not> changed baseline (clip k)"
  shows "(time_time (Suc n) - time_time 0 < timeout_s \<and> changed baseline (clip n) \<longrightarrow>
            wait_for_clip_change time_time clip baseline timeout_s =
              Some (get_clipboard_text (clip n))) \<and>
         (\<not> time_time (Suc n) - time_time 0 < timeout_s \<longrightarrow>
            wait_for_clip_change time_time clip baseline timeout_s = Some (Inr None)) \<and>
         (\<forall>w. read_fails w \<longrightarrow> get_clipboard_text w = Inr None \<and> \<not> changed baseline w) \<and>
         (\<forall>e. wait_for_clip_change time_time clip baseline timeout_s \<noteq> Some (Inl e))"
proof -
  let ?start = "time_time 0"
  have skip: "wait_for_clip_change time_time clip baseline timeout_s =
              poll_loop time_time clip baseline timeout_s ?start n"
    using poll_loop_skip[of n time_time 0 ?start timeout_s baseline clip] assms
    by (simp add: wait_for_clip_change_def)
  have 1: "time_time (Suc n) - ?start < timeout_s \<and> changed baseline (clip n) \<longrightarrow>
            wait_for_clip_change time_time clip baseline timeout_s =
              Some (get_clipboard_text (clip n))"
    unfolding skip by (simp add: poll_loop_changed)
  have 2: "\<not> time_time (Suc n) - ?start < timeout_s \<longrightarrow>
            wait_for_clip_change time_time clip baseline timeout_s = Some (Inr None)"
    unfolding skip by (simp add: poll_loop_timeout)
  have 3: "\<forall>w. read_fails w \<longrightarrow> get_clipboard_text w = Inr None \<and> \<not> changed baseline w"
    by (simp add: get_clipboard_text_fails not_changed_fails)
  have 4: "\<forall>e. wait_for_clip_change time_time clip baseline timeout_s \<noteq> Some (Inl e)"
  proof (intro allI notI)
    fix e
    assume "wait_for_clip_change time_time clip baseline timeout_s = Some (Inl e)"
    then have "poll_loop time_time clip baseline timeout_s ?start 0 = Some (Inl e)"
      by (simp add: wait_for_clip_change_def)
    from poll_loop_no_exception[OF this] show False by simp
  qed
  from 1 2 3 4 show ?thesis by blast
qed

lemma get_clipboard_with: "get_clipboard_text (clipboard_with s) = Inr (Some s)"
  by (simp add: get_clipboard_text_def clipboard_with_def call_def try_except_def try_finally_def)

lemma get_locked_clipboard: "get_clipboard_text locked_clipboard = Inr None"
  by (simp add: get_clipboard_text_def locked_clipboard_def call_def try_except_def
      try_finally_def)

theorem wait_for_clip_change_result_witness:
  "wait_for_clip_change example_clock example_clip (str ''old'') 15 =
     Some (Inr (Some (str ''new''))) \<and>
   wait_for_clip_change example_clock (\<lambda>k. clipboard_with (str ''old'')) (str ''old'') (1 / 4) =
     Some (Inr None) \<and>
   read_fails locked_clipboard \<and> get_clipboard_text locked_clipboard = Inr None"
proof -
  have a: "\<forall>k<2. example_clock (Suc k) - example_clock 0 < 15 \<and>
                  \<not> changed (str ''old'') (example_clip k)"
  proof (intro allI impI)
    fix k :: nat
    assume "k < 2"
    then consider "k = 0" | "k = 1" by linarith
    then show "example_clock (Suc k) - example_clock 0 < 15 \<and>
               \<not> changed (str ''old'') (example_clip k)"
      by cases
        (simp_all add: example_clock_def example_clip_def changed_def get_clipboard_with
          get_locked_clipboard)
  qed
  have b: "\<forall>k<2. example_clock (Suc k) - example_clock 0 < 1 / 4 \<and>
                  \<not> changed (str ''old'') (clipboard_with (str ''old''))"
  proof (intro allI impI)
    fix k :: nat
    assume "k < 2"
    then consider "k = 0" | "k = 1" by linarith
    then show "example_clock (Suc k) - example_clock 0 < 1 / 4 \<and>
               \<not> changed (str ''old'') (clipboard_with (str ''old''))"
      by cases (simp_all add: example_clock_def changed_def get_clipboard_with)
  qed
  have c2: "example_clip 2 = clipboard_with (str ''new'')"
    by (simp add: example_clip_def)
  have c: "changed (str ''old'') (example_clip 2)"
    by (simp add: c2 changed_def get_clipboard_with str_def)
  have d: "example_clock (Suc 2) - example_clock 0 < 15"
    "\<not> example_clock (Suc 2) - example_clock 0 < 1 / 4"
    by (simp_all add: example_clock_def)
  have e: "read_fails locked_clipboard"
    by (simp add: read_fails_def locked_clipboard_def call_def)
  from wait_for_clip_change_result[OF a] c d(1)
  have 1: "wait_for_clip_change example_clock example_clip (str ''old'') 15 =
            Some (Inr (Some (str ''new'')))"
    by (simp add: c2 get_clipboard_with)
  from wait_for_clip_change_result[OF b] d(2)
  have 2: "wait_for_clip_change example_clock (\<lambda>k. clipboard_with (str ''old'')) (str ''old'')
             (1 / 4) = Some (Inr None)"
    by simp
  from 1 2 e get_locked_clipboard show ?thesis by simp
qed

end
